theory Spec2Isabelle
  imports Main "HOL-Library.Word" "HOL-Library.Signed_Division" "HOL-Library.AList"
begin

section \<open>Shared types: bytes, errors, opcodes, raw typed copies\<close>

type_synonym byte = "8 word"
type_synonym u32 = "32 word"
type_synonym u64 = "64 word"

text \<open>
  Every way the C++ leaves the normal control flow is a value of \<open>error\<close>:
  \<^item> \<open>RuntimeError msg\<close> is \<^verbatim>\<open>throw RuntimeError(msg)\<close> of the interpreter;
  \<^item> \<open>AssertFailed msg\<close> is a firing \<^verbatim>\<open>assert(cond && msg)\<close> of the code generator;
  \<^item> \<open>ParserError msg\<close> is \<^verbatim>\<open>throw ParserError(loc, msg)\<close> (the location is dropped);
  \<^item> \<open>Undefined what\<close> marks an execution that C++ leaves undefined or that the host
    aborts (reading outside a vector, \<^verbatim>\<open>INT64_MIN / -1\<close>, a \<^verbatim>\<open>resize\<close> to a wrapped
    size). Nothing is promised about such an execution.
\<close>

datatype error =
  RuntimeError string
| AssertFailed string
| ParserError string
| Undefined string

definition bind_err :: "error + 'a \<Rightarrow> ('a \<Rightarrow> error + 'b) \<Rightarrow> error + 'b" where
  "bind_err m f = (case m of Inl e \<Rightarrow> Inl e | Inr x \<Rightarrow> f x)"

text \<open>
  Modelled from the spec: the enumeration of the opcodes is declared in a header that is
  not among the sources. The spec lists the closed set in this order and says that an
  opcode is a single unsigned byte, so the byte of an opcode is its position.
\<close>

datatype Opcode =
  PUSH_FUNC | PUSH_PROTO | PUSH_INT | PEEK | POP | CALL
| ADD | SUB | MUL | DIV | MOD
| GREATER | LOWER | GREATER_EQ | LOWER_EQ | IS_EQ
| RET | JUMP_FALSE | JUMP | STOP

definition opcodes :: "Opcode list" where
  "opcodes = [PUSH_FUNC, PUSH_PROTO, PUSH_INT, PEEK, POP, CALL, ADD, SUB, MUL, DIV, MOD,
              GREATER, LOWER, GREATER_EQ, LOWER_EQ, IS_EQ, RET, JUMP_FALSE, JUMP, STOP]"

fun opcode_byte :: "Opcode \<Rightarrow> byte" where
  "opcode_byte PUSH_FUNC = 0"
| "opcode_byte PUSH_PROTO = 1"
| "opcode_byte PUSH_INT = 2"
| "opcode_byte PEEK = 3"
| "opcode_byte POP = 4"
| "opcode_byte CALL = 5"
| "opcode_byte ADD = 6"
| "opcode_byte SUB = 7"
| "opcode_byte MUL = 8"
| "opcode_byte DIV = 9"
| "opcode_byte MOD = 10"
| "opcode_byte GREATER = 11"
| "opcode_byte LOWER = 12"
| "opcode_byte GREATER_EQ = 13"
| "opcode_byte LOWER_EQ = 14"
| "opcode_byte IS_EQ = 15"
| "opcode_byte RET = 16"
| "opcode_byte JUMP_FALSE = 17"
| "opcode_byte JUMP = 18"
| "opcode_byte STOP = 19"

definition opcode_of_byte :: "byte \<Rightarrow> Opcode option" where
  "opcode_of_byte b = (if unat b < length opcodes then Some (opcodes ! unat b) else None)"

text \<open>
  \<^verbatim>\<open>memcpy\<close> of a scalar to and from the byte vector. The spec fixes host byte order; the
  model takes the little-endian host the project is built for. \<open>le_bytes k n\<close> is the
  object representation of \<open>n\<close> in \<open>k\<close> bytes, \<open>le_nat\<close> reads one back.
\<close>

fun le_bytes :: "nat \<Rightarrow> nat \<Rightarrow> byte list" where
  "le_bytes 0 n = []"
| "le_bytes (Suc k) n = of_nat (n mod 256) # le_bytes k (n div 256)"

fun le_nat :: "byte list \<Rightarrow> nat" where
  "le_nat [] = 0"
| "le_nat (b # bs) = unat b + 256 * le_nat bs"

definition bytes_u32 :: "u32 \<Rightarrow> byte list" where
  "bytes_u32 w = le_bytes 4 (unat w)"

definition bytes_u64 :: "u64 \<Rightarrow> byte list" where
  "bytes_u64 w = le_bytes 8 (unat w)"

section \<open>The interpreter (interp.cpp)\<close>

text \<open>
  A runtime value is a tagged union of a 64-bit signed integer, a program address and a
  pointer to a host primitive. \<open>V_INT\<close> carries the two's-complement bits; \<open>sint\<close> reads
  the signed value.
\<close>

datatype Value = V_INT u64 | V_ADDR u64 | V_PROTO u64

text \<open>
  The interpreter state: the program bytes, the cursor \<^verbatim>\<open>pc_\<close> and the value stack.
  \<open>stack\<close> lists the vector from its back: the head is the top of the stack, so
  \<^verbatim>\<open>*(stack_.rbegin() + idx)\<close> is \<open>stack ! idx\<close>.
\<close>

record Interp =
  prog :: "byte list"
  pc :: u64
  stack :: "Value list"

text \<open>
  Modelled from the spec: \<^verbatim>\<open>Program::Read<T>\<close> is declared in program.h, which is not among
  the sources. The spec: all immediates are read via raw typed copies at the current
  cursor, which advances past them. A read that leaves the buffer is undefined.
\<close>

definition Read_bytes :: "nat \<Rightarrow> Interp \<Rightarrow> error + (byte list \<times> Interp)" where
  "Read_bytes k st =
     (if unat (pc st) + k \<le> length (prog st)
      then Inr (take k (drop (unat (pc st)) (prog st)), st\<lparr>pc := pc st + of_nat k\<rparr>)
      else Inl (Undefined ''read past the end of the program''))"

definition Read_Opcode :: "Interp \<Rightarrow> error + (Opcode option \<times> Interp)" where
  "Read_Opcode st =
     bind_err (Read_bytes 1 st) (\<lambda>(bs, st). Inr (opcode_of_byte (of_nat (le_nat bs)), st))"

definition Read_unsigned :: "Interp \<Rightarrow> error + (u32 \<times> Interp)" where
  "Read_unsigned st = bind_err (Read_bytes 4 st) (\<lambda>(bs, st). Inr (of_nat (le_nat bs), st))"

definition Read_u64 :: "Interp \<Rightarrow> error + (u64 \<times> Interp)" where
  "Read_u64 st = bind_err (Read_bytes 8 st) (\<lambda>(bs, st). Inr (of_nat (le_nat bs), st))"

text \<open>
  Modelled from the spec: \<^verbatim>\<open>Push\<close>, \<^verbatim>\<open>Pop\<close>, \<^verbatim>\<open>PopInt\<close>, \<^verbatim>\<open>PopAddr\<close> and the truth test of
  a value are declared in interp.h, which is not among the sources. The spec: POP must not
  underflow; arithmetic operands must be \<open>Int\<close>, and the use of another variant is a
  runtime fault (``type error''); a value is false iff it is an \<open>Int\<close> equal to zero.
\<close>

definition Push :: "Value \<Rightarrow> Interp \<Rightarrow> Interp" where
  "Push v st = st\<lparr>stack := v # stack st\<rparr>"

definition Pop :: "Interp \<Rightarrow> error + (Value \<times> Interp)" where
  "Pop st =
     (case stack st of
        [] \<Rightarrow> Inl (Undefined ''pop from an empty stack'')
      | v # vs \<Rightarrow> Inr (v, st\<lparr>stack := vs\<rparr>))"

definition PopInt :: "Interp \<Rightarrow> error + (u64 \<times> Interp)" where
  "PopInt st =
     bind_err (Pop st) (\<lambda>(v, st).
       case v of V_INT n \<Rightarrow> Inr (n, st) | _ \<Rightarrow> Inl (RuntimeError ''type error''))"

definition PopAddr :: "Interp \<Rightarrow> error + (u64 \<times> Interp)" where
  "PopAddr st =
     bind_err (Pop st) (\<lambda>(v, st).
       case v of V_ADDR a \<Rightarrow> Inr (a, st) | _ \<Rightarrow> Inl (RuntimeError ''type error''))"

fun truthy :: "Value \<Rightarrow> bool" where
  "truthy (V_INT n) = (n \<noteq> 0)"
| "truthy (V_ADDR a) = True"
| "truthy (V_PROTO f) = True"

text \<open>
  \<^verbatim>\<open>stack_.resize(stack_.size() - n)\<close>: drops the \<open>n\<close> topmost values. With fewer than
  \<open>n\<close> values the unsigned difference wraps to a size no vector can have and the
  \<^verbatim>\<open>resize\<close> throws.
\<close>

definition resize_down :: "u32 \<Rightarrow> Interp \<Rightarrow> error + Interp" where
  "resize_down n st =
     (if unat n \<le> length (stack st) then Inr (st\<lparr>stack := drop (unat n) (stack st)\<rparr>)
      else Inl (Undefined ''resize of the stack to a wrapped size''))"

text \<open>
  The value of a C++ comparison converted to \<^verbatim>\<open>long\<close>.
\<close>

definition of_cond :: "bool \<Rightarrow> u64" where
  "of_cond b = (if b then 1 else 0)"

datatype flow = Continue Interp | Stopped Interp

text \<open>
  One case of the \<^verbatim>\<open>switch\<close> of \<^verbatim>\<open>Interp::Run\<close>, after the opcode has been read. \<open>host\<close>
  stands for the host primitives behind the \<open>Proto\<close> pointers.

  Signed arithmetic: \<^verbatim>\<open>rhs + lhs\<close>, \<^verbatim>\<open>lhs - rhs\<close> and \<^verbatim>\<open>rhs * lhs\<close> are computed on the
  two's-complement bits and wrap modulo \<open>2 ^ 64\<close>, which is what the overflow tests
  that follow them in the source presuppose. \<^verbatim>\<open>lhs / rhs\<close> and \<^verbatim>\<open>lhs % rhs\<close> truncate
  towards zero; for \<^verbatim>\<open>INT64_MIN / -1\<close> the quotient is not representable and C++ leaves
  both operations undefined.
\<close>

definition div_undefined :: "u64 \<Rightarrow> u64 \<Rightarrow> bool" where
  "div_undefined lhs rhs \<longleftrightarrow> sint lhs = - (2 ^ 63) \<and> sint rhs = - 1"

fun Exec :: "(u64 \<Rightarrow> Interp \<Rightarrow> error + Interp) \<Rightarrow> Opcode \<Rightarrow> Interp \<Rightarrow> error + flow" where
  "Exec host PUSH_FUNC st =
     bind_err (Read_u64 st) (\<lambda>(a, st). Inr (Continue (Push (V_ADDR a) st)))"
| "Exec host PUSH_PROTO st =
     bind_err (Read_u64 st) (\<lambda>(f, st). Inr (Continue (Push (V_PROTO f) st)))"
| "Exec host PUSH_INT st =
     bind_err (Read_u64 st) (\<lambda>(n, st). Inr (Continue (Push (V_INT n) st)))"
| "Exec host PEEK st =
     bind_err (Read_unsigned st) (\<lambda>(idx, st).
       if unat idx < length (stack st) then Inr (Continue (Push (stack st ! unat idx) st))
       else Inl (Undefined ''peek past the bottom of the stack''))"
| "Exec host POP st = bind_err (Pop st) (\<lambda>(v, st). Inr (Continue st))"
| "Exec host CALL st =
     bind_err (Pop st) (\<lambda>(callee, st).
       case callee of
         V_PROTO f \<Rightarrow> bind_err (host f st) (\<lambda>st. Inr (Continue st))
       | V_ADDR a \<Rightarrow> Inr (Continue ((Push (V_ADDR (pc st)) st)\<lparr>pc := a\<rparr>))
       | V_INT n \<Rightarrow> Inl (RuntimeError ''cannot call integer''))"
| "Exec host ADD st =
     bind_err (PopInt st) (\<lambda>(rhs, st). bind_err (PopInt st) (\<lambda>(lhs, st).
       let res = rhs + lhs in
       if sint res < 0 \<and> sint rhs \<ge> 0 \<and> sint lhs \<ge> 0 then Inl (RuntimeError ''overflow error'')
       else if sint res \<ge> 0 \<and> sint rhs < 0 \<and> sint lhs < 0 then Inl (RuntimeError ''overflow error'')
       else Inr (Continue (Push (V_INT res) st))))"
| "Exec host SUB st =
     bind_err (PopInt st) (\<lambda>(rhs, st). bind_err (PopInt st) (\<lambda>(lhs, st).
       let res = lhs - rhs in
       if sint res > 0 \<and> sint rhs \<ge> 0 \<and> sint lhs \<le> 0 then Inl (RuntimeError ''overflow error'')
       else if sint res < 0 \<and> sint rhs < 0 \<and> sint lhs \<ge> 0 then Inl (RuntimeError ''overflow error'')
       else Inr (Continue (Push (V_INT res) st))))"
| "Exec host MUL st =
     bind_err (PopInt st) (\<lambda>(rhs, st). bind_err (PopInt st) (\<lambda>(lhs, st).
       let res = rhs * lhs in Inr (Continue (Push (V_INT res) st))))"
| "Exec host DIV st =
     bind_err (PopInt st) (\<lambda>(rhs, st). bind_err (PopInt st) (\<lambda>(lhs, st).
       if rhs = 0 then Inl (RuntimeError ''division by 0'')
       else if div_undefined lhs rhs then Inl (Undefined ''signed division overflow'')
       else let res = word_of_int (sint lhs sdiv sint rhs) in
         Inr (Continue (Push (V_INT res) st))))"
| "Exec host MOD st =
     bind_err (PopInt st) (\<lambda>(rhs, st). bind_err (PopInt st) (\<lambda>(lhs, st).
       if rhs = 0 then Inl (RuntimeError ''division by 0'')
       else if div_undefined lhs rhs then Inl (Undefined ''signed division overflow'')
       else let res = word_of_int (sint lhs smod sint rhs) in
         Inr (Continue (Push (V_INT res) st))))"
| "Exec host GREATER st =
     bind_err (PopInt st) (\<lambda>(rhs, st). bind_err (PopInt st) (\<lambda>(lhs, st).
       let res = of_cond (sint rhs > sint lhs) in Inr (Continue (Push (V_INT res) st))))"
| "Exec host LOWER st =
     bind_err (PopInt st) (\<lambda>(rhs, st). bind_err (PopInt st) (\<lambda>(lhs, st).
       let res = of_cond (sint rhs < sint lhs) in Inr (Continue (Push (V_INT res) st))))"
| "Exec host GREATER_EQ st =
     bind_err (PopInt st) (\<lambda>(rhs, st). bind_err (PopInt st) (\<lambda>(lhs, st).
       let res = of_cond (sint rhs \<ge> sint lhs) in Inr (Continue (Push (V_INT res) st))))"
| "Exec host LOWER_EQ st =
     bind_err (PopInt st) (\<lambda>(rhs, st). bind_err (PopInt st) (\<lambda>(lhs, st).
       let res = of_cond (sint rhs \<le> sint lhs) in Inr (Continue (Push (V_INT res) st))))"
| "Exec host IS_EQ st =
     bind_err (PopInt st) (\<lambda>(rhs, st). bind_err (PopInt st) (\<lambda>(lhs, st).
       let res = of_cond (rhs = lhs) in Inr (Continue (Push (V_INT res) st))))"
| "Exec host RET st =
     bind_err (Read_unsigned st) (\<lambda>(d, st).
     bind_err (Read_unsigned st) (\<lambda>(nargs, st).
     bind_err (Pop st) (\<lambda>(v, st).
     bind_err (resize_down d st) (\<lambda>st.
     bind_err (PopAddr st) (\<lambda>(a, st).
     bind_err (resize_down nargs (st\<lparr>pc := a\<rparr>)) (\<lambda>st.
       Inr (Continue (Push v st))))))))"
| "Exec host JUMP_FALSE st =
     bind_err (Pop st) (\<lambda>(cond, st).
     bind_err (Read_u64 st) (\<lambda>(addr, st).
       if \<not> truthy cond then Inr (Continue (st\<lparr>pc := addr\<rparr>)) else Inr (Continue st)))"
| "Exec host JUMP st =
     bind_err (Read_u64 st) (\<lambda>(addr, st). Inr (Continue (st\<lparr>pc := addr\<rparr>)))"
| "Exec host STOP st = Inr (Stopped st)"

text \<open>
  One turn of the \<^verbatim>\<open>for (;;)\<close> loop: read the opcode at \<^verbatim>\<open>pc_\<close> and dispatch. A byte
  that is no opcode matches no \<^verbatim>\<open>case\<close>, and the loop goes on with the next byte.
\<close>

definition Step :: "(u64 \<Rightarrow> Interp \<Rightarrow> error + Interp) \<Rightarrow> Interp \<Rightarrow> error + flow" where
  "Step host st =
     bind_err (Read_Opcode st) (\<lambda>(op, st).
       case op of None \<Rightarrow> Inr (Continue st) | Some op \<Rightarrow> Exec host op st)"

text \<open>
  \<^verbatim>\<open>Interp::Run\<close>. The loop of the source has no bound, so the model counts turns:
  \<open>None\<close> means that \<open>n\<close> turns did not reach \<^verbatim>\<open>STOP\<close> or a fault.
\<close>

fun Run :: "(u64 \<Rightarrow> Interp \<Rightarrow> error + Interp) \<Rightarrow> nat \<Rightarrow> Interp \<Rightarrow> (error + Interp) option" where
  "Run host 0 st = None"
| "Run host (Suc n) st =
     (case Step host st of
        Inl e \<Rightarrow> Some (Inl e)
      | Inr (Stopped st') \<Rightarrow> Some (Inr st')
      | Inr (Continue st') \<Rightarrow> Run host n st')"

text \<open>The first \<open>n\<close> turns of that loop, to look at a state on the way.\<close>

fun Steps :: "(u64 \<Rightarrow> Interp \<Rightarrow> error + Interp) \<Rightarrow> nat \<Rightarrow> Interp \<Rightarrow> error + flow" where
  "Steps host 0 st = Inr (Continue st)"
| "Steps host (Suc n) st =
     bind_err (Step host st) (\<lambda>f.
       case f of Continue st' \<Rightarrow> Steps host n st' | Stopped st' \<Rightarrow> Inr (Stopped st'))"

section \<open>The syntax tree consumed by the code generator\<close>

text \<open>
  Modelled from the spec: the tree is declared in ast.h, which is not among the sources.
  The constructors and their children are the ones the parser builds and the code
  generator reads: statements are Block, While, If, Expr, Return and Let, expressions are
  Ref, Binary, Call and Int, and a module is a sequence of function declarations,
  prototypes and top-level statements.
\<close>

datatype Kind =
  K_ADD | K_SUB | K_MUL | K_DIV | K_MOD
| K_GREATER | K_LOWER | K_GREATER_EQ | K_LOWER_EQ | K_IS_EQ

datatype Expr =
  RefExpr string
| BinaryExpr Kind Expr Expr
| CallExpr Expr "Expr list"
| IntExpr u64

datatype Stmt =
  BlockStmt "Stmt list"
| WhileStmt Expr Stmt
| IfStmt Expr Stmt "Stmt option"
| ExprStmt Expr
| ReturnStmt Expr
| LetStmt string string "Expr option"

datatype FuncDecl =
  FuncDecl (func_name: string) (func_args: "(string \<times> string) list") (func_type: string)
    (func_body: "Stmt list")

datatype ProtoDecl =
  ProtoDecl (proto_name: string) (proto_args: "(string \<times> string) list") (proto_type: string)
    (proto_primitive: string)

text \<open>The alternatives of the variant, in the order \<^verbatim>\<open>std::get<0>\<close>, \<open>1\<close>, \<open>2\<close> address them.\<close>

datatype TopLevelStmt = T_Func FuncDecl | T_Proto ProtoDecl | T_Stmt Stmt

type_synonym Module = "TopLevelStmt list"

section \<open>The code generator (codegen.cpp)\<close>

subsection \<open>Scopes and bindings\<close>

type_synonym Label = nat
type_synonym RuntimeFn = u64

datatype Binding = B_FUNC Label | B_PROTO RuntimeFn | B_ARG u32 | B_LOCAL u32

text \<open>
  A scope with its chain of parents. The maps of the global scope are \<^verbatim>\<open>std::map\<close>s read
  by \<^verbatim>\<open>find\<close>; the arguments and the locals are kept as association lists with one entry
  per key, because their number of entries is read as well.
\<close>

datatype Scope =
  GlobalScope "string \<rightharpoonup> Label" "string \<rightharpoonup> RuntimeFn"
| FuncScope Scope "(string \<times> u32) list"
| BlockScope Scope "(string \<times> u32) list"

fun Lookup :: "Scope \<Rightarrow> string \<Rightarrow> error + Binding" where
  "Lookup (GlobalScope funcs' protos) name =
     (case funcs' name of
        Some entry \<Rightarrow> Inr (B_FUNC entry)
      | None \<Rightarrow>
          (case protos name of
             Some fn \<Rightarrow> Inr (B_PROTO fn)
           | None \<Rightarrow> Inl (AssertFailed ''name not bound'')))"
| "Lookup (FuncScope parent args) name =
     (case map_of args name of
        Some i \<Rightarrow> Inr (B_ARG i)
      | None \<Rightarrow> Lookup parent name)"
| "Lookup (BlockScope parent locals) name =
     (case map_of locals name of
        Some d \<Rightarrow> Inr (B_LOCAL d)
      | None \<Rightarrow> Lookup parent name)"

text \<open>
  Modelled from the spec: \<^verbatim>\<open>Scope::AddLocal\<close> and \<^verbatim>\<open>BlockScope::NumberOfLocals\<close> are
  declared in codegen.h, which is not among the sources. The spec: a block scope maps a
  local name to the stack-depth snapshot taken at the moment of declaration, and a block
  emits one \<^verbatim>\<open>POP\<close> per local declared directly in it. The global and the function
  scope hold no locals, so a declaration leaves them as they are.
\<close>

fun AddLocal :: "Scope \<Rightarrow> string \<Rightarrow> u32 \<Rightarrow> Scope" where
  "AddLocal (BlockScope parent locals) name d = BlockScope parent (AList.update name d locals)"
| "AddLocal (FuncScope parent args) name d = FuncScope parent args"
| "AddLocal (GlobalScope funcs' protos) name d = GlobalScope funcs' protos"

fun NumberOfLocals :: "Scope \<Rightarrow> nat" where
  "NumberOfLocals (BlockScope parent locals) = length locals"
| "NumberOfLocals (FuncScope parent args) = 0"
| "NumberOfLocals (GlobalScope funcs' protos) = 0"

subsection \<open>The emitter state and the raw emitters\<close>

text \<open>
  The members of \<^verbatim>\<open>Codegen\<close>: the byte vector \<^verbatim>\<open>code_\<close>, the static stack depth
  \<^verbatim>\<open>depth_\<close> (an \<^verbatim>\<open>unsigned\<close>), the label counter, the function labels, the resolved
  labels, the pending fixup sites of each label and the function being lowered. An
  address written to the stream is a \<^verbatim>\<open>size_t\<close>, 64 bits wide. A fixup site is an
  offset into the vector and is kept as a natural number: a vector holds fewer than
  \<open>2 ^ 64\<close> bytes, so the \<^verbatim>\<open>size_t\<close> of the source loses nothing of it.
\<close>

record Codegen =
  code :: "byte list"
  depth :: u32
  nextLabel :: nat
  funcs :: "string \<rightharpoonup> Label"
  labelToAddress :: "Label \<rightharpoonup> u64"
  fixups :: "Label \<rightharpoonup> nat list"
  func :: "FuncDecl option"

definition MakeLabel :: "Codegen \<Rightarrow> Label \<times> Codegen" where
  "MakeLabel cg = (nextLabel cg + 1, cg\<lparr>nextLabel := nextLabel cg + 1\<rparr>)"

text \<open>\<^verbatim>\<open>Emit<T>\<close>: grow the vector by \<^verbatim>\<open>sizeof(T)\<close> and copy the value to its end.\<close>

definition Emit_bytes :: "byte list \<Rightarrow> Codegen \<Rightarrow> Codegen" where
  "Emit_bytes bs cg = cg\<lparr>code := code cg @ bs\<rparr>"

definition Emit_Opcode :: "Opcode \<Rightarrow> Codegen \<Rightarrow> Codegen" where
  "Emit_Opcode op cg = Emit_bytes [opcode_byte op] cg"

definition Emit_u32 :: "u32 \<Rightarrow> Codegen \<Rightarrow> Codegen" where
  "Emit_u32 w cg = Emit_bytes (bytes_u32 w) cg"

definition Emit_u64 :: "u64 \<Rightarrow> Codegen \<Rightarrow> Codegen" where
  "Emit_u64 w cg = Emit_bytes (bytes_u64 w) cg"

text \<open>
  \<^verbatim>\<open>memcpy(code_.data() + loc, src, n)\<close> with \<open>bs\<close> the \<open>n\<close> bytes at \<open>src\<close>. A copy that
  leaves the vector is undefined.
\<close>

definition memcpy_at :: "byte list \<Rightarrow> nat \<Rightarrow> byte list \<Rightarrow> error + byte list" where
  "memcpy_at c loc bs =
     (if loc + length bs \<le> length c then Inr (take loc c @ bs @ drop (loc + length bs) c)
      else Inl (Undefined ''memcpy outside the code vector''))"

text \<open>
  The loop of \<^verbatim>\<open>EmitLabel\<close> over the fixup sites of the label. Each turn copies
  \<^verbatim>\<open>sizeof(unsigned)\<close>, that is 4, bytes of the 8-byte \<^verbatim>\<open>address\<close>: on the little-endian host
  these are its low 4 bytes.
\<close>

fun patch_sites :: "u64 \<Rightarrow> byte list \<Rightarrow> nat list \<Rightarrow> error + byte list" where
  "patch_sites address c [] = Inr c"
| "patch_sites address c (loc # locs) =
     bind_err (memcpy_at c loc (take 4 (bytes_u64 address))) (\<lambda>c.
       patch_sites address c locs)"

text \<open>
  \<^verbatim>\<open>fixups_[label]\<close> creates an empty entry when the label has none;
  \<^verbatim>\<open>labelToAddress_.emplace\<close> keeps an address that is already there.
\<close>

definition sites_of :: "Codegen \<Rightarrow> Label \<Rightarrow> nat list" where
  "sites_of cg label = (case fixups cg label of None \<Rightarrow> [] | Some locs \<Rightarrow> locs)"

definition EmitLabel :: "Label \<Rightarrow> Codegen \<Rightarrow> error + Codegen" where
  "EmitLabel label cg =
     (let address = (of_nat (length (code cg)) :: u64) in
      bind_err (patch_sites address (code cg) (sites_of cg label)) (\<lambda>c.
        Inr (cg\<lparr>code := c,
                fixups := (fixups cg)(label \<mapsto> sites_of cg label),
                labelToAddress :=
                  (case labelToAddress cg label of
                     Some a \<Rightarrow> labelToAddress cg
                   | None \<Rightarrow> (labelToAddress cg)(label \<mapsto> address))\<rparr>)))"

definition EmitFixup :: "Label \<Rightarrow> Codegen \<Rightarrow> Codegen" where
  "EmitFixup label cg =
     (case labelToAddress cg label of
        Some a \<Rightarrow> Emit_u64 a cg
      | None \<Rightarrow>
          Emit_u64 0
            (cg\<lparr>fixups := (fixups cg)(label \<mapsto> sites_of cg label @ [length (code cg)])\<rparr>))"

subsection \<open>The emitters of single instructions\<close>

text \<open>
  Ten emitters and \<^verbatim>\<open>EmitPop\<close> share one body: assert that the depth is positive, count
  it down and emit the opcode.
\<close>

definition emit_drop1 :: "Opcode \<Rightarrow> Codegen \<Rightarrow> error + Codegen" where
  "emit_drop1 op cg =
     (if depth cg > 0 then Inr (Emit_Opcode op (cg\<lparr>depth := depth cg - 1\<rparr>))
      else Inl (AssertFailed ''no elements on stack''))"

definition EmitPop :: "Codegen \<Rightarrow> error + Codegen" where
  "EmitPop = emit_drop1 POP"

definition EmitAdd :: "Codegen \<Rightarrow> error + Codegen" where
  "EmitAdd = emit_drop1 ADD"

definition EmitSub :: "Codegen \<Rightarrow> error + Codegen" where
  "EmitSub = emit_drop1 SUB"

definition EmitMul :: "Codegen \<Rightarrow> error + Codegen" where
  "EmitMul = emit_drop1 MUL"

definition EmitDiv :: "Codegen \<Rightarrow> error + Codegen" where
  "EmitDiv = emit_drop1 DIV"

definition EmitMod :: "Codegen \<Rightarrow> error + Codegen" where
  "EmitMod = emit_drop1 MOD"

definition EmitGreater :: "Codegen \<Rightarrow> error + Codegen" where
  "EmitGreater = emit_drop1 GREATER"

definition EmitLower :: "Codegen \<Rightarrow> error + Codegen" where
  "EmitLower = emit_drop1 LOWER"

definition EmitGreaterEqual :: "Codegen \<Rightarrow> error + Codegen" where
  "EmitGreaterEqual = emit_drop1 GREATER_EQ"

definition EmitLowerEqual :: "Codegen \<Rightarrow> error + Codegen" where
  "EmitLowerEqual = emit_drop1 LOWER_EQ"

definition EmitIsEqual :: "Codegen \<Rightarrow> error + Codegen" where
  "EmitIsEqual = emit_drop1 IS_EQ"

definition EmitCall :: "nat \<Rightarrow> Codegen \<Rightarrow> Codegen" where
  "EmitCall nargs cg = Emit_Opcode CALL cg"

definition EmitPushFunc :: "Label \<Rightarrow> Codegen \<Rightarrow> Codegen" where
  "EmitPushFunc entry cg = EmitFixup entry (Emit_Opcode PUSH_FUNC (cg\<lparr>depth := depth cg + 1\<rparr>))"

definition EmitPushProto :: "RuntimeFn \<Rightarrow> Codegen \<Rightarrow> Codegen" where
  "EmitPushProto fn cg = Emit_u64 fn (Emit_Opcode PUSH_PROTO (cg\<lparr>depth := depth cg + 1\<rparr>))"

definition EmitPeek :: "u32 \<Rightarrow> Codegen \<Rightarrow> Codegen" where
  "EmitPeek index cg = Emit_u32 index (Emit_Opcode PEEK (cg\<lparr>depth := depth cg + 1\<rparr>))"

definition EmitInt :: "u64 \<Rightarrow> Codegen \<Rightarrow> Codegen" where
  "EmitInt n cg = Emit_u64 n (Emit_Opcode PUSH_INT (cg\<lparr>depth := depth cg + 1\<rparr>))"

text \<open>\<^verbatim>\<open>func_ ? func_->arg_size() : 0\<close>, converted to \<^verbatim>\<open>unsigned\<close>.\<close>

definition arg_count :: "Codegen \<Rightarrow> u32" where
  "arg_count cg = (case func cg of None \<Rightarrow> 0 | Some decl \<Rightarrow> of_nat (length (func_args decl)))"

definition EmitReturn :: "Codegen \<Rightarrow> error + Codegen" where
  "EmitReturn cg =
     (if depth cg > 0 then
        (let cg = Emit_Opcode RET (cg\<lparr>depth := depth cg - 1\<rparr>);
             cg = Emit_u32 (depth cg) cg
         in Inr (Emit_u32 (arg_count cg) cg))
      else Inl (AssertFailed ''no elements on stack''))"

definition EmitJumpFalse :: "Label \<Rightarrow> Codegen \<Rightarrow> error + Codegen" where
  "EmitJumpFalse label cg =
     (if depth cg > 0 then Inr (EmitFixup label (Emit_Opcode JUMP_FALSE (cg\<lparr>depth := depth cg - 1\<rparr>)))
      else Inl (AssertFailed ''no elements on stack''))"

definition EmitJump :: "Label \<Rightarrow> Codegen \<Rightarrow> Codegen" where
  "EmitJump label cg = EmitFixup label (Emit_Opcode JUMP cg)"

subsection \<open>Lowering of expressions and statements\<close>

lemma bind_err_cong [fundef_cong]:
  "m = m' \<Longrightarrow> (\<And>x. m' = Inr x \<Longrightarrow> f x = f' x) \<Longrightarrow> bind_err m f = bind_err m' f'"
  by (auto simp: bind_err_def split: sum.splits)

definition LowerRefExpr :: "Scope \<Rightarrow> string \<Rightarrow> Codegen \<Rightarrow> error + Codegen" where
  "LowerRefExpr scope name cg =
     bind_err (Lookup scope name) (\<lambda>binding.
       case binding of
         B_FUNC entry \<Rightarrow> Inr (EmitPushFunc entry cg)
       | B_PROTO fn \<Rightarrow> Inr (EmitPushProto fn cg)
       | B_ARG index \<Rightarrow> Inr (EmitPeek (depth cg + index + 1) cg)
       | B_LOCAL index \<Rightarrow> Inr (EmitPeek (depth cg - index) cg))"

definition LowerIntExpr :: "Scope \<Rightarrow> u64 \<Rightarrow> Codegen \<Rightarrow> error + Codegen" where
  "LowerIntExpr scope number cg = Inr (EmitInt number cg)"

text \<open>The \<^verbatim>\<open>switch\<close> that ends \<^verbatim>\<open>LowerBinaryExpr\<close>.\<close>

fun EmitKind :: "Kind \<Rightarrow> Codegen \<Rightarrow> error + Codegen" where
  "EmitKind K_ADD = EmitAdd"
| "EmitKind K_SUB = EmitSub"
| "EmitKind K_MUL = EmitMul"
| "EmitKind K_DIV = EmitDiv"
| "EmitKind K_MOD = EmitMod"
| "EmitKind K_GREATER = EmitGreater"
| "EmitKind K_LOWER = EmitLower"
| "EmitKind K_GREATER_EQ = EmitGreaterEqual"
| "EmitKind K_LOWER_EQ = EmitLowerEqual"
| "EmitKind K_IS_EQ = EmitIsEqual"

text \<open>
  \<^verbatim>\<open>LowerExpr\<close> with \<^verbatim>\<open>LowerBinaryExpr\<close> and \<^verbatim>\<open>LowerCallExpr\<close> as its second and third
  equation. \<open>LowerArgs\<close> is the loop of \<^verbatim>\<open>LowerCallExpr\<close> from \<^verbatim>\<open>arg_rbegin\<close> to
  \<^verbatim>\<open>arg_rend\<close>: the last argument is lowered first. \<^verbatim>\<open>depth_ -= call.arg_size()\<close> is
  computed in \<^verbatim>\<open>unsigned\<close>.
\<close>

fun LowerExpr :: "Scope \<Rightarrow> Expr \<Rightarrow> Codegen \<Rightarrow> error + Codegen"
  and LowerArgs :: "Scope \<Rightarrow> Expr list \<Rightarrow> Codegen \<Rightarrow> error + Codegen" where
  "LowerExpr scope (RefExpr name) cg = LowerRefExpr scope name cg"
| "LowerExpr scope (BinaryExpr kind lhs rhs) cg =
     bind_err (LowerExpr scope lhs cg) (\<lambda>cg.
     bind_err (LowerExpr scope rhs cg) (\<lambda>cg.
       EmitKind kind cg))"
| "LowerExpr scope (CallExpr callee args) cg =
     bind_err (LowerArgs scope args cg) (\<lambda>cg.
     bind_err (LowerExpr scope callee cg) (\<lambda>cg.
       let cg = EmitCall (length args) cg
       in Inr (cg\<lparr>depth := depth cg - of_nat (length args)\<rparr>)))"
| "LowerExpr scope (IntExpr number) cg = LowerIntExpr scope number cg"
| "LowerArgs scope [] cg = Inr cg"
| "LowerArgs scope (arg # args) cg =
     bind_err (LowerArgs scope args cg) (\<lambda>cg. LowerExpr scope arg cg)"

definition LowerLetStmt :: "Scope \<Rightarrow> string \<Rightarrow> Expr option \<Rightarrow> Codegen \<Rightarrow> error + (Scope \<times> Codegen)" where
  "LowerLetStmt scope name init cg =
     bind_err (case init of Some e \<Rightarrow> LowerExpr scope e cg | None \<Rightarrow> Inr cg) (\<lambda>cg.
       Inr (AddLocal scope name (depth cg), cg))"

definition LowerReturnStmt :: "Scope \<Rightarrow> Expr \<Rightarrow> Codegen \<Rightarrow> error + Codegen" where
  "LowerReturnStmt scope e cg = bind_err (LowerExpr scope e cg) EmitReturn"

definition LowerExprStmt :: "Scope \<Rightarrow> Expr \<Rightarrow> Codegen \<Rightarrow> error + Codegen" where
  "LowerExprStmt scope e cg = bind_err (LowerExpr scope e cg) EmitPop"

text \<open>The loop of \<^verbatim>\<open>LowerBlockStmt\<close> that emits one \<^verbatim>\<open>POP\<close> per local of the block.\<close>

fun EmitPops :: "nat \<Rightarrow> Codegen \<Rightarrow> error + Codegen" where
  "EmitPops 0 cg = Inr cg"
| "EmitPops (Suc n) cg = bind_err (EmitPop cg) (EmitPops n)"

text \<open>
  A statement is lowered in a scope that \<^verbatim>\<open>LowerLetStmt\<close> may extend, so the scope is
  returned with the emitter state. \<^verbatim>\<open>LowerBlockStmt\<close> opens its own block scope, which
  ends with it: the caller's scope comes back as it was. \<open>LowerStmts\<close> is the loop of
  \<^verbatim>\<open>LowerBlockStmt\<close> over the statements of the block.
\<close>

fun LowerStmt :: "Scope \<Rightarrow> Stmt \<Rightarrow> Codegen \<Rightarrow> error + (Scope \<times> Codegen)"
  and LowerBlockStmt :: "Scope \<Rightarrow> Stmt list \<Rightarrow> Codegen \<Rightarrow> error + (Scope \<times> Codegen)"
  and LowerStmts :: "Scope \<Rightarrow> Stmt list \<Rightarrow> Codegen \<Rightarrow> error + (Scope \<times> Codegen)" where
  "LowerStmt scope (BlockStmt body) cg = LowerBlockStmt scope body cg"
| "LowerStmt scope (WhileStmt cond body) cg =
     (let (entry, cg) = MakeLabel cg;
          (exit, cg) = MakeLabel cg
      in
      bind_err (EmitLabel entry cg) (\<lambda>cg.
      bind_err (LowerExpr scope cond cg) (\<lambda>cg.
      bind_err (EmitJumpFalse exit cg) (\<lambda>cg.
      bind_err (LowerStmt scope body cg) (\<lambda>(scope, cg).
      bind_err (EmitLabel exit (EmitJump entry cg)) (\<lambda>cg.
        Inr (scope, cg)))))))"
| "LowerStmt scope (IfStmt cond body elseBranch) cg =
     (let (entry, cg) = MakeLabel cg;
          (elseLabel, cg) = MakeLabel cg;
          (exit, cg) = MakeLabel cg
      in
      bind_err (EmitLabel entry cg) (\<lambda>cg.
      bind_err (LowerExpr scope cond cg) (\<lambda>cg.
      bind_err (EmitJumpFalse elseLabel cg) (\<lambda>cg.
      bind_err (LowerStmt scope body cg) (\<lambda>(scope, cg).
      bind_err (EmitLabel elseLabel (EmitJump exit cg)) (\<lambda>cg.
      bind_err (case elseBranch of
                  Some stmt \<Rightarrow> LowerStmt scope stmt cg
                | None \<Rightarrow> Inr (scope, cg)) (\<lambda>(scope, cg).
      bind_err (EmitLabel exit cg) (\<lambda>cg.
        Inr (scope, cg)))))))))"
| "LowerStmt scope (ExprStmt e) cg =
     bind_err (LowerExprStmt scope e cg) (\<lambda>cg. Inr (scope, cg))"
| "LowerStmt scope (ReturnStmt e) cg =
     bind_err (LowerReturnStmt scope e cg) (\<lambda>cg. Inr (scope, cg))"
| "LowerStmt scope (LetStmt name type init) cg = LowerLetStmt scope name init cg"
| "LowerBlockStmt scope body cg =
     (let depthIn = depth cg in
      bind_err (LowerStmts (BlockScope scope []) body cg) (\<lambda>(blockScope, cg).
      bind_err (EmitPops (NumberOfLocals blockScope) cg) (\<lambda>cg.
        if depth cg = depthIn then Inr (scope, cg)
        else Inl (AssertFailed ''mismatched block depth on exit''))))"
| "LowerStmts scope [] cg = Inr (scope, cg)"
| "LowerStmts scope (stmt # stmts) cg =
     bind_err (LowerStmt scope stmt cg) (\<lambda>(scope, cg). LowerStmts scope stmts cg)"

text \<open>
  The argument map of \<^verbatim>\<open>LowerFuncDecl\<close>: \<^verbatim>\<open>args[it->first] = args.size()\<close>, where the
  size is read before the entry is made.
\<close>

fun arg_map :: "(string \<times> string) list \<Rightarrow> (string \<times> u32) list \<Rightarrow> (string \<times> u32) list" where
  "arg_map [] args = args"
| "arg_map (a # as) args = arg_map as (AList.update (fst a) (of_nat (length args)) args)"

definition LowerFuncDecl :: "Scope \<Rightarrow> FuncDecl \<Rightarrow> Codegen \<Rightarrow> error + Codegen" where
  "LowerFuncDecl scope decl cg =
     (case funcs cg (func_name decl) of
        None \<Rightarrow> Inl (AssertFailed ''missing function label'')
      | Some entry \<Rightarrow>
          bind_err (EmitLabel entry cg) (\<lambda>cg.
            let cg = cg\<lparr>func := Some decl\<rparr> in
            if depth cg \<noteq> 0 then Inl (AssertFailed ''invalid stack depth in global scope'')
            else
              bind_err (LowerBlockStmt (FuncScope scope (arg_map (func_args decl) [])) (func_body decl) cg)
                (\<lambda>(fnScope, cg).
                  if depth cg \<noteq> 0 then Inl (AssertFailed ''invalid stack depth on function exit'')
                  else Inr (cg\<lparr>func := None\<rparr>))))"

subsection \<open>Translate\<close>

text \<open>
  The three loops of \<^verbatim>\<open>Translate\<close> over the items of the module. \<open>kRuntimeFns\<close> is the
  table of host primitives, defined outside the sources and taken as a parameter. Both
  \<^verbatim>\<open>emplace\<close> calls keep an entry that is already there; \<^verbatim>\<open>MakeLabel()\<close> is evaluated
  all the same.
\<close>

fun Declare :: "(string \<rightharpoonup> RuntimeFn) \<Rightarrow> Module \<Rightarrow> (string \<rightharpoonup> RuntimeFn) \<Rightarrow> Codegen \<Rightarrow>
    error + ((string \<rightharpoonup> RuntimeFn) \<times> Codegen)" where
  "Declare kRuntimeFns [] protos cg = Inr (protos, cg)"
| "Declare kRuntimeFns (T_Proto proto # items) protos cg =
     (case kRuntimeFns (proto_primitive proto) of
        None \<Rightarrow> Inl (AssertFailed ''missing prototype'')
      | Some fn \<Rightarrow>
          Declare kRuntimeFns items
            (case protos (proto_name proto) of
               Some old \<Rightarrow> protos
             | None \<Rightarrow> protos(proto_name proto \<mapsto> fn)) cg)"
| "Declare kRuntimeFns (T_Func decl # items) protos cg =
     (let (label, cg) = MakeLabel cg in
      Declare kRuntimeFns items protos
        (case funcs cg (func_name decl) of
           Some old \<Rightarrow> cg
         | None \<Rightarrow> cg\<lparr>funcs := (funcs cg)(func_name decl \<mapsto> label)\<rparr>))"
| "Declare kRuntimeFns (T_Stmt stmt # items) protos cg = Declare kRuntimeFns items protos cg"

fun LowerTopLevel :: "Scope \<Rightarrow> Module \<Rightarrow> Codegen \<Rightarrow> error + (Scope \<times> Codegen)" where
  "LowerTopLevel global [] cg = Inr (global, cg)"
| "LowerTopLevel global (T_Stmt stmt # items) cg =
     bind_err (LowerStmt global stmt cg) (\<lambda>(global, cg). LowerTopLevel global items cg)"
| "LowerTopLevel global (T_Func decl # items) cg = LowerTopLevel global items cg"
| "LowerTopLevel global (T_Proto proto # items) cg = LowerTopLevel global items cg"

fun LowerFuncs :: "Scope \<Rightarrow> Module \<Rightarrow> Codegen \<Rightarrow> error + Codegen" where
  "LowerFuncs global [] cg = Inr cg"
| "LowerFuncs global (T_Func decl # items) cg =
     bind_err (LowerFuncDecl global decl cg) (\<lambda>cg. LowerFuncs global items cg)"
| "LowerFuncs global (T_Stmt stmt # items) cg = LowerFuncs global items cg"
| "LowerFuncs global (T_Proto proto # items) cg = LowerFuncs global items cg"

text \<open>
  \<^verbatim>\<open>Translate\<close> runs on the members of a \<^verbatim>\<open>Codegen\<close> and returns the bytes of the
  program.
\<close>

definition Translate :: "(string \<rightharpoonup> RuntimeFn) \<Rightarrow> Module \<Rightarrow> Codegen \<Rightarrow> error + byte list" where
  "Translate kRuntimeFns mod' cg =
     (if code cg \<noteq> [] then Inl (AssertFailed ''expected empty code section'')
      else
        bind_err (Declare kRuntimeFns mod' Map.empty cg) (\<lambda>(protos, cg).
        bind_err (LowerTopLevel (GlobalScope (funcs cg) protos) mod' cg) (\<lambda>(global, cg).
        bind_err (LowerFuncs global mod' (Emit_Opcode STOP cg)) (\<lambda>cg.
          Inr (code cg)))))"

text \<open>A freshly constructed \<^verbatim>\<open>Codegen\<close>.\<close>

definition init_Codegen :: Codegen where
  "init_Codegen =
     \<lparr>code = [], depth = 0, nextLabel = 0, funcs = Map.empty, labelToAddress = Map.empty,
      fixups = Map.empty, func = None\<rparr>"

section \<open>The expression parser (parser.cpp)\<close>

text \<open>
  The token kinds of lexer.h; the three complex tokens carry their payload. The location
  of a token only feeds error messages and is left out.
\<close>

datatype Token =
  TK_FUNC | TK_RETURN | TK_WHILE | TK_IF | TK_ELSE | TK_LET
| TK_LPAREN | TK_RPAREN | TK_LBRACE | TK_RBRACE | TK_COLON | TK_SEMI | TK_EQUAL | TK_COMMA
| TK_PLUS | TK_MINUS | TK_MUL | TK_DIV | TK_MOD
| TK_GREATER | TK_LOWER | TK_GREATER_EQ | TK_LOWER_EQ | TK_IS_EQ
| TK_INT u64 | TK_STRING string | TK_IDENT string
| TK_END

text \<open>
  Modelled from the spec: the lexer is a conventional tokenizer defined in lexer.cpp, which
  is not among the sources; lexer.h declares \<^verbatim>\<open>Next\<close> (advance the stream to the next
  token) and \<^verbatim>\<open>GetToken\<close> (the current token). The lexer state is the list of the tokens
  not yet consumed, the current one first; past the end the current token is \<open>END\<close>.
  \<^verbatim>\<open>Parser::Current\<close> and \<^verbatim>\<open>Parser::ParseExpr\<close> are declared in parser.h, not among the
  sources either: the current token is the lexer's, and the spec gives comparison as the
  lowest level of precedence, so \<^verbatim>\<open>ParseExpr\<close> is \<^verbatim>\<open>ParseCompExpr\<close>.
\<close>

definition Current :: "Token list \<Rightarrow> Token" where
  "Current ts = (case ts of [] \<Rightarrow> TK_END | tk # rest \<Rightarrow> tk)"

definition Next :: "Token list \<Rightarrow> Token list" where
  "Next ts = tl ts"

definition Check :: "Token \<Rightarrow> Token list \<Rightarrow> error + Token" where
  "Check kind ts =
     (if kind \<noteq> Current ts then Inl (ParserError ''unexpected token'') else Inr (Current ts))"

definition ParseTermExpr :: "Token list \<Rightarrow> error + (Expr \<times> Token list)" where
  "ParseTermExpr ts =
     (case Current ts of
        TK_IDENT ident \<Rightarrow> Inr (RefExpr ident, Next ts)
      | TK_INT v \<Rightarrow> Inr (IntExpr v, Next ts)
      | _ \<Rightarrow> Inl (ParserError ''unexpected token, expecting term''))"

text \<open>
  The recursion of the parser follows the input and has no bound of its own, so the model
  counts: every loop function takes the number \<open>n\<close> of turns it may still make, and
  \<open>ParseExpr n\<close> may nest calls \<open>n\<close> deep. With the count used up the result is \<open>None\<close>.
  \<open>bind_fuel\<close> passes on a result, an error and \<open>None\<close>.
\<close>

type_synonym 'a parsed = "(error + ('a \<times> Token list)) option"

definition bind_fuel :: "(error + 'a) option \<Rightarrow> ('a \<Rightarrow> (error + 'b) option) \<Rightarrow> (error + 'b) option" where
  "bind_fuel m f = (case m of None \<Rightarrow> None | Some (Inl e) \<Rightarrow> Some (Inl e) | Some (Inr x) \<Rightarrow> f x)"

lemma bind_fuel_cong [fundef_cong]:
  "m = m' \<Longrightarrow> (\<And>x. m' = Some (Inr x) \<Longrightarrow> f x = f' x) \<Longrightarrow> bind_fuel m f = bind_fuel m' f'"
  by (auto simp: bind_fuel_def split: option.splits sum.splits)

definition is_comp :: "Token \<Rightarrow> bool" where
  "is_comp tk \<longleftrightarrow>
     tk = TK_GREATER \<or> tk = TK_LOWER \<or> tk = TK_GREATER_EQ \<or> tk = TK_LOWER_EQ \<or> tk = TK_IS_EQ"

text \<open>
  \<^verbatim>\<open>ParseCallExpr\<close> calls \<^verbatim>\<open>ParseExpr\<close> for the arguments of a call, which closes the
  recursion of the grammar. The parsing functions take the parser of nested expressions as
  their parameter \<open>pe\<close>, and \<open>ParseExpr\<close>, defined last, passes itself with one level of
  nesting less. Each \<^verbatim>\<open>while\<close> loop is a function of its own: \<open>ParseArgs\<close> is the inner
  loop of \<^verbatim>\<open>ParseCallExpr\<close> over the arguments of one call, entered at the opening
  parenthesis or at a comma, \<open>CallLoop\<close> its outer loop, and \<open>MulDivModLoop\<close>,
  \<open>AddSubLoop\<close> and \<open>CompLoop\<close> are the loops of the three binary levels.
\<close>

fun ParseArgs :: "(Token list \<Rightarrow> Expr parsed) \<Rightarrow> nat \<Rightarrow> Expr list \<Rightarrow> Token list \<Rightarrow> Expr list parsed" where
  "ParseArgs pe 0 args ts = None"
| "ParseArgs pe (Suc n) args ts =
     (let ts = Next ts in
      if Current ts = TK_RPAREN then Some (Inr (args, ts))
      else
        bind_fuel (pe ts) (\<lambda>(e, ts).
          let args = args @ [e] in
          if Current ts \<noteq> TK_COMMA then Some (Inr (args, ts))
          else ParseArgs pe n args ts))"

fun CallLoop :: "(Token list \<Rightarrow> Expr parsed) \<Rightarrow> nat \<Rightarrow> Expr \<Rightarrow> Token list \<Rightarrow> Expr parsed" where
  "CallLoop pe 0 callee ts = None"
| "CallLoop pe (Suc n) callee ts =
     (if Current ts = TK_LPAREN then
        bind_fuel (ParseArgs pe n [] ts) (\<lambda>(args, ts).
        bind_fuel (Some (Check TK_RPAREN ts)) (\<lambda>tk.
          let ts = Next ts in CallLoop pe n (CallExpr callee args) ts))
      else Some (Inr (callee, ts)))"

definition ParseCallExpr :: "(Token list \<Rightarrow> Expr parsed) \<Rightarrow> nat \<Rightarrow> Token list \<Rightarrow> Expr parsed" where
  "ParseCallExpr pe n ts =
     bind_fuel (Some (ParseTermExpr ts)) (\<lambda>(callee, ts). CallLoop pe n callee ts)"

fun MulDivModLoop :: "(Token list \<Rightarrow> Expr parsed) \<Rightarrow> nat \<Rightarrow> Expr \<Rightarrow> Token list \<Rightarrow> Expr parsed" where
  "MulDivModLoop pe 0 term ts = None"
| "MulDivModLoop pe (Suc n) term ts =
     (if Current ts = TK_MUL \<or> Current ts = TK_DIV \<or> Current ts = TK_MOD then
        (if Current ts = TK_MUL then
           (let ts = Next ts in
            bind_fuel (ParseCallExpr pe n ts) (\<lambda>(rhs, ts).
              MulDivModLoop pe n (BinaryExpr K_MUL term rhs) ts))
         else if Current ts = TK_DIV then
           (let ts = Next ts in
            bind_fuel (ParseCallExpr pe n ts) (\<lambda>(rhs, ts).
              MulDivModLoop pe n (BinaryExpr K_DIV term rhs) ts))
         else
           (let ts = Next ts in
            bind_fuel (ParseCallExpr pe n ts) (\<lambda>(rhs, ts).
              MulDivModLoop pe n (BinaryExpr K_MOD term rhs) ts)))
      else Some (Inr (term, ts)))"

definition ParseMulDivModExpr :: "(Token list \<Rightarrow> Expr parsed) \<Rightarrow> nat \<Rightarrow> Token list \<Rightarrow> Expr parsed" where
  "ParseMulDivModExpr pe n ts =
     bind_fuel (ParseCallExpr pe n ts) (\<lambda>(term, ts). MulDivModLoop pe n term ts)"

fun AddSubLoop :: "(Token list \<Rightarrow> Expr parsed) \<Rightarrow> nat \<Rightarrow> Expr \<Rightarrow> Token list \<Rightarrow> Expr parsed" where
  "AddSubLoop pe 0 term ts = None"
| "AddSubLoop pe (Suc n) term ts =
     (if Current ts = TK_PLUS \<or> Current ts = TK_MINUS then
        (if Current ts = TK_PLUS then
           (let ts = Next ts in
            bind_fuel (ParseMulDivModExpr pe n ts) (\<lambda>(rhs, ts).
              AddSubLoop pe n (BinaryExpr K_ADD term rhs) ts))
         else
           (let ts = Next ts in
            bind_fuel (ParseMulDivModExpr pe n ts) (\<lambda>(rhs, ts).
              AddSubLoop pe n (BinaryExpr K_SUB term rhs) ts)))
      else Some (Inr (term, ts)))"

definition ParseAddSubExpr :: "(Token list \<Rightarrow> Expr parsed) \<Rightarrow> nat \<Rightarrow> Token list \<Rightarrow> Expr parsed" where
  "ParseAddSubExpr pe n ts =
     bind_fuel (ParseMulDivModExpr pe n ts) (\<lambda>(term, ts). AddSubLoop pe n term ts)"

text \<open>
  The loop of \<^verbatim>\<open>ParseCompExpr\<close>. The operator is consumed by \<^verbatim>\<open>lexer_.Next()\<close> before the
  right operand is parsed; the chain of tests that picks the kind of the node reads
  \<^verbatim>\<open>Current()\<close> after it.
\<close>

fun CompLoop :: "(Token list \<Rightarrow> Expr parsed) \<Rightarrow> nat \<Rightarrow> Expr \<Rightarrow> Token list \<Rightarrow> Expr parsed" where
  "CompLoop pe 0 term ts = None"
| "CompLoop pe (Suc n) term ts =
     (if is_comp (Current ts) then
        (let ts = Next ts in
         bind_fuel (ParseAddSubExpr pe n ts) (\<lambda>(rhs, ts).
           let term =
             (if Current ts = TK_GREATER then BinaryExpr K_GREATER term rhs
              else if Current ts = TK_LOWER then BinaryExpr K_LOWER term rhs
              else if Current ts = TK_GREATER_EQ then BinaryExpr K_GREATER_EQ term rhs
              else if Current ts = TK_LOWER_EQ then BinaryExpr K_LOWER_EQ term rhs
              else BinaryExpr K_IS_EQ term rhs)
           in CompLoop pe n term ts))
      else Some (Inr (term, ts)))"

definition ParseCompExpr :: "(Token list \<Rightarrow> Expr parsed) \<Rightarrow> nat \<Rightarrow> Token list \<Rightarrow> Expr parsed" where
  "ParseCompExpr pe n ts =
     bind_fuel (ParseAddSubExpr pe n ts) (\<lambda>(term, ts). CompLoop pe n term ts)"

fun ParseExpr :: "nat \<Rightarrow> Token list \<Rightarrow> Expr parsed" where
  "ParseExpr 0 ts = None"
| "ParseExpr (Suc n) ts = ParseCompExpr (ParseExpr n) n ts"

text \<open>A parser that returns whatever another one returns, and possibly more.\<close>

definition extends :: "(Token list \<Rightarrow> Expr parsed) \<Rightarrow> (Token list \<Rightarrow> Expr parsed) \<Rightarrow> bool" where
  "extends pe pe' \<longleftrightarrow> (\<forall>ts r. pe ts = Some r \<longrightarrow> pe' ts = Some r)"

section \<open>The program that the spec describes\<close>

text \<open>
  The spec gives the layout of a translated module in words: the code of the top-level
  statements in source order, one \<^verbatim>\<open>STOP\<close>, the bodies of the functions in source order,
  every reference to a label holding the address of the label. The definitions of this
  section write that description down once more, without the emitter: the code of a
  module as a list of items, and the bytes of such a list. They are compared with
  \<^verbatim>\<open>Translate\<close> below.

  An item is a run of bytes, a reference to a label (the 8-byte operand of
  \<^verbatim>\<open>PUSH_FUNC\<close>, \<^verbatim>\<open>JUMP_FALSE\<close> or \<^verbatim>\<open>JUMP\<close>), or the place of a label (no bytes).
\<close>

datatype Asm = A_bytes "byte list" | A_ref Label | A_label Label

fun asm_size :: "Asm \<Rightarrow> nat" where
  "asm_size (A_bytes bs) = length bs"
| "asm_size (A_ref l) = 8"
| "asm_size (A_label l) = 0"

definition size_of :: "Asm list \<Rightarrow> nat" where
  "size_of xs = sum_list (map asm_size xs)"

text \<open>
  The offset of the first and of the last place of the label \<open>l\<close> in a list of items that
  starts at the offset \<open>pos\<close>.
\<close>

fun first_label :: "Label \<Rightarrow> nat \<Rightarrow> Asm list \<Rightarrow> nat option" where
  "first_label l pos [] = None"
| "first_label l pos (x # xs) =
     (if x = A_label l then Some pos else first_label l (pos + asm_size x) xs)"

fun last_label :: "Label \<Rightarrow> nat \<Rightarrow> Asm list \<Rightarrow> nat option" where
  "last_label l pos [] = None"
| "last_label l pos (x # xs) =
     (case last_label l (pos + asm_size x) xs of
        Some a \<Rightarrow> Some a
      | None \<Rightarrow> if x = A_label l then Some pos else None)"

text \<open>
  The bytes of a list of items. \<open>seen\<close> holds the labels placed so far; a reference to one
  of them takes the value \<open>bw\<close> of the label, a reference to a label placed later or never
  takes the value \<open>fw\<close>.
\<close>

fun render :: "(Label \<Rightarrow> byte list) \<Rightarrow> (Label \<Rightarrow> byte list) \<Rightarrow> Label set \<Rightarrow> Asm list \<Rightarrow> byte list" where
  "render bw fw seen [] = []"
| "render bw fw seen (A_bytes bs # xs) = bs @ render bw fw seen xs"
| "render bw fw seen (A_ref l # xs) = (if l \<in> seen then bw l else fw l) @ render bw fw seen xs"
| "render bw fw seen (A_label l # xs) = render bw fw (insert l seen) xs"

text \<open>
  What a reference holds. After the label was placed: the address recorded for it, which is
  the offset of its first place, in 8 bytes. Before: the placeholder \<open>0\<close> while the label is
  not placed, and once it is, the offset of its last place in the low 4 bytes, which is the
  whole offset in a program of less than \<open>2 ^ 32\<close> bytes. A label has one place unless two
  functions share a name.
\<close>

definition backward_ref :: "Asm list \<Rightarrow> Label \<Rightarrow> byte list" where
  "backward_ref xs l =
     (case first_label l 0 xs of None \<Rightarrow> bytes_u64 0 | Some a \<Rightarrow> bytes_u64 (of_nat a))"

definition forward_ref :: "Asm list \<Rightarrow> Label \<Rightarrow> byte list" where
  "forward_ref xs l =
     (case last_label l 0 xs of None \<Rightarrow> bytes_u64 0 | Some a \<Rightarrow> bytes_u64 (of_nat (a mod 2 ^ 32)))"

definition assemble :: "Asm list \<Rightarrow> byte list" where
  "assemble xs = render (backward_ref xs) (forward_ref xs) {} xs"

text \<open>An opcode as an item, and the opcode of a binary operator.\<close>

definition ins :: "Opcode \<Rightarrow> Asm" where
  "ins op = A_bytes [opcode_byte op]"

fun kind_opcode :: "Kind \<Rightarrow> Opcode" where
  "kind_opcode K_ADD = ADD"
| "kind_opcode K_SUB = SUB"
| "kind_opcode K_MUL = MUL"
| "kind_opcode K_DIV = DIV"
| "kind_opcode K_MOD = MOD"
| "kind_opcode K_GREATER = GREATER"
| "kind_opcode K_LOWER = LOWER"
| "kind_opcode K_GREATER_EQ = GREATER_EQ"
| "kind_opcode K_LOWER_EQ = LOWER_EQ"
| "kind_opcode K_IS_EQ = IS_EQ"

text \<open>
  Expression lowering at the static depth \<open>d\<close>, in the spec's words. Int: \<^verbatim>\<open>PUSH_INT n\<close>.
  Ref: by the binding of the name, \<^verbatim>\<open>PUSH_FUNC\<close> with a fixup for the entry label,
  \<^verbatim>\<open>PUSH_PROTO fn\<close>, \<^verbatim>\<open>PEEK (depth + i + 1)\<close> or \<^verbatim>\<open>PEEK (depth - d)\<close>. Binary: lower lhs,
  lower rhs, emit the operator. Call: lower the arguments right to left, lower the callee,
  emit \<^verbatim>\<open>CALL\<close>. Every expression leaves one value, so what follows it is lowered one
  deeper.
\<close>

fun asm_ref :: "u32 \<Rightarrow> error + Binding \<Rightarrow> Asm list" where
  "asm_ref d (Inr (B_FUNC entry)) = [ins PUSH_FUNC, A_ref entry]"
| "asm_ref d (Inr (B_PROTO fn)) = [ins PUSH_PROTO, A_bytes (bytes_u64 fn)]"
| "asm_ref d (Inr (B_ARG i)) = [ins PEEK, A_bytes (bytes_u32 (d + i + 1))]"
| "asm_ref d (Inr (B_LOCAL k)) = [ins PEEK, A_bytes (bytes_u32 (d - k))]"
| "asm_ref d (Inl e) = []"

fun asm_expr :: "Scope \<Rightarrow> u32 \<Rightarrow> Expr \<Rightarrow> Asm list"
  and asm_args :: "Scope \<Rightarrow> u32 \<Rightarrow> Expr list \<Rightarrow> Asm list" where
  "asm_expr sc d (IntExpr n) = [ins PUSH_INT, A_bytes (bytes_u64 n)]"
| "asm_expr sc d (RefExpr name) = asm_ref d (Lookup sc name)"
| "asm_expr sc d (BinaryExpr kind lhs rhs) =
     asm_expr sc d lhs @ asm_expr sc (d + 1) rhs @ [ins (kind_opcode kind)]"
| "asm_expr sc d (CallExpr callee args) =
     asm_args sc d args @ asm_expr sc (d + of_nat (length args)) callee @ [ins CALL]"
| "asm_args sc d [] = []"
| "asm_args sc d (arg # args) = asm_args sc d args @ asm_expr sc (d + of_nat (length args)) arg"

text \<open>
  Statement lowering, in the spec's words, for a function of \<open>nargs\<close> arguments, in the
  scope \<open>sc\<close>, at the depth \<open>d\<close>, with \<open>nl\<close> labels minted so far. The result is the code
  with the scope, the depth and the number of labels after the statement.
  ExprStmt: lower the expression, then \<^verbatim>\<open>POP\<close>. Return: lower the expression, then \<^verbatim>\<open>RET\<close>
  with the depth after the expression minus one and the argument count. Let: lower the
  initialiser if there is one, then bind the name to the depth at this point. While: mint
  \<open>entry\<close> and \<open>exit\<close>; \<open>entry\<close>, the condition, \<^verbatim>\<open>JUMP_FALSE exit\<close>, the body,
  \<^verbatim>\<open>JUMP entry\<close>, \<open>exit\<close>. If: mint \<open>entry\<close>, \<open>elseL\<close> and \<open>exit\<close>; \<open>entry\<close>, the condition,
  \<^verbatim>\<open>JUMP_FALSE elseL\<close>, the then-branch, \<^verbatim>\<open>JUMP exit\<close>, \<open>elseL\<close>, the else-branch if there
  is one, \<open>exit\<close>. Block: a fresh block scope, the statements in order, one \<^verbatim>\<open>POP\<close> per
  local of the block; the scope and the depth are those at the entry of the block.
\<close>

fun asm_stmt :: "u32 \<Rightarrow> Scope \<Rightarrow> u32 \<Rightarrow> nat \<Rightarrow> Stmt \<Rightarrow> Asm list \<times> Scope \<times> u32 \<times> nat"
  and asm_stmts :: "u32 \<Rightarrow> Scope \<Rightarrow> u32 \<Rightarrow> nat \<Rightarrow> Stmt list \<Rightarrow> Asm list \<times> Scope \<times> u32 \<times> nat" where
  "asm_stmt nargs sc d nl (ExprStmt e) = (asm_expr sc d e @ [ins POP], sc, d, nl)"
| "asm_stmt nargs sc d nl (ReturnStmt e) =
     (asm_expr sc d e @ [ins RET, A_bytes (bytes_u32 (d + 1 - 1)), A_bytes (bytes_u32 nargs)],
      sc, d, nl)"
| "asm_stmt nargs sc d nl (LetStmt name type None) = ([], AddLocal sc name d, d, nl)"
| "asm_stmt nargs sc d nl (LetStmt name type (Some init)) =
     (asm_expr sc d init, AddLocal sc name (d + 1), d + 1, nl)"
| "asm_stmt nargs sc d nl (WhileStmt cond body) =
     (let entry = nl + 1; exit = nl + 2;
          (b, sc', d', nl') = asm_stmt nargs sc d (nl + 2) body
      in (A_label entry # asm_expr sc d cond @ [ins JUMP_FALSE, A_ref exit] @ b @
            [ins JUMP, A_ref entry, A_label exit], sc', d', nl'))"
| "asm_stmt nargs sc d nl (IfStmt cond body elseBranch) =
     (let entry = nl + 1; elseLabel = nl + 2; exit = nl + 3;
          (b, sc1, d1, nl1) = asm_stmt nargs sc d (nl + 3) body;
          (e, sc2, d2, nl2) =
            (case elseBranch of
               Some stmt \<Rightarrow> asm_stmt nargs sc1 d1 nl1 stmt
             | None \<Rightarrow> ([], sc1, d1, nl1))
      in (A_label entry # asm_expr sc d cond @ [ins JUMP_FALSE, A_ref elseLabel] @ b @
            [ins JUMP, A_ref exit, A_label elseLabel] @ e @ [A_label exit], sc2, d2, nl2))"
| "asm_stmt nargs sc d nl (BlockStmt body) =
     (let (b, blockScope, d', nl') = asm_stmts nargs (BlockScope sc []) d nl body
      in (b @ replicate (NumberOfLocals blockScope) (ins POP), sc, d, nl'))"
| "asm_stmts nargs sc d nl [] = ([], sc, d, nl)"
| "asm_stmts nargs sc d nl (stmt # stmts) =
     (let (a, sc1, d1, nl1) = asm_stmt nargs sc d nl stmt;
          (b, sc2, d2, nl2) = asm_stmts nargs sc1 d1 nl1 stmts
      in (a @ b, sc2, d2, nl2))"

text \<open>
  The top-level statements, the functions and the prototypes of a module, each in source
  order.
\<close>

definition top_stmts :: "Module \<Rightarrow> Stmt list" where
  "top_stmts m = concat (map (\<lambda>item. case item of T_Stmt s \<Rightarrow> [s] | _ \<Rightarrow> []) m)"

definition func_decls :: "Module \<Rightarrow> FuncDecl list" where
  "func_decls m = concat (map (\<lambda>item. case item of T_Func d \<Rightarrow> [d] | _ \<Rightarrow> []) m)"

definition proto_decls :: "Module \<Rightarrow> ProtoDecl list" where
  "proto_decls m = concat (map (\<lambda>item. case item of T_Proto p \<Rightarrow> [p] | _ \<Rightarrow> []) m)"

text \<open>
  The pre-pass, in the spec's words: for every function a fresh label, here the labels
  \<open>1\<close>, \<open>2\<close>, ... in source order, and for every prototype the primitive that the runtime
  table holds for its primitive name. Of two declarations of one name the first one binds
  the name.
\<close>

definition declared_funcs :: "Module \<Rightarrow> string \<rightharpoonup> Label" where
  "declared_funcs m =
     map_of (zip (map func_name (func_decls m)) [1 ..< Suc (length (func_decls m))])"

definition declared_protos :: "(string \<rightharpoonup> RuntimeFn) \<Rightarrow> Module \<Rightarrow> string \<rightharpoonup> RuntimeFn" where
  "declared_protos kRuntimeFns m name =
     (case find (\<lambda>p. proto_name p = name) (proto_decls m) of
        None \<Rightarrow> None
      | Some p \<Rightarrow> kRuntimeFns (proto_primitive p))"

text \<open>
  The bodies of the functions, in source order: the entry label of the function, then its
  body as a block in the scope of its arguments, entered at depth \<open>0\<close>.
\<close>

fun asm_funcs :: "Scope \<Rightarrow> (string \<rightharpoonup> Label) \<Rightarrow> nat \<Rightarrow> FuncDecl list \<Rightarrow> Asm list" where
  "asm_funcs global fs nl [] = []"
| "asm_funcs global fs nl (decl # decls) =
     (let (b, sc, d, nl') =
            asm_stmt (of_nat (length (func_args decl)))
              (FuncScope global (arg_map (func_args decl) [])) 0 nl (BlockStmt (func_body decl))
      in (case fs (func_name decl) of None \<Rightarrow> [] | Some entry \<Rightarrow> [A_label entry]) @ b @
         asm_funcs global fs nl' decls)"

text \<open>
  The module: the code of the top-level statements in source order, \<^verbatim>\<open>STOP\<close>, the bodies
  of the functions in source order.
\<close>

definition asm_module :: "(string \<rightharpoonup> RuntimeFn) \<Rightarrow> Module \<Rightarrow> Asm list" where
  "asm_module kRuntimeFns m =
     (let fs = declared_funcs m;
          (t, global, d, nl) =
            asm_stmts 0 (GlobalScope fs (declared_protos kRuntimeFns m)) 0 (length (func_decls m))
              (top_stmts m)
      in t @ ins STOP # asm_funcs global fs nl (func_decls m))"

section \<open>Definitions for the properties and the examples\<close>

text \<open>
  The labels placed in a list of items, and the offsets of the references to \<open>l\<close> that come
  before the first place of \<open>l\<close>: the fixup sites of the label.
\<close>

definition labels_of :: "Asm list \<Rightarrow> Label set" where
  "labels_of xs = {l. A_label l \<in> set xs}"

fun fsites :: "Label \<Rightarrow> nat \<Rightarrow> Asm list \<Rightarrow> nat list" where
  "fsites l pos [] = []"
| "fsites l pos (x # xs) =
     (if x = A_label l then []
      else (if x = A_ref l then [pos] else []) @ fsites l (pos + asm_size x) xs)"

text \<open>
  The emitter state \<open>cg\<close> is the one described by the items \<open>tr\<close>: its bytes are those of
  the items, it has recorded for every label the offset of its first place, and its fixup
  sites are the references that came before it.
\<close>

definition emitted :: "Asm list \<Rightarrow> Codegen \<Rightarrow> bool" where
  "emitted tr cg \<longleftrightarrow>
     code cg = assemble tr \<and>
     (\<forall>l. labelToAddress cg l = map_option of_nat (first_label l 0 tr)) \<and>
     (\<forall>l. sites_of cg l = fsites l 0 tr)"

text \<open>
  A lowering that started in \<open>cg\<close>, described by \<open>tr\<close>, and ended with the scope \<open>sc'\<close> in
  \<open>cg'\<close> has done what \<open>r\<close> says: emitted its items and reached its scope, depth and
  number of labels.
\<close>

definition lowers ::
  "Asm list \<Rightarrow> Codegen \<Rightarrow> Asm list \<times> Scope \<times> u32 \<times> nat \<Rightarrow> Scope \<Rightarrow> Codegen \<Rightarrow> bool" where
  "lowers tr cg r sc' cg' \<longleftrightarrow>
     emitted (tr @ fst r) cg' \<and> snd r = (sc', depth cg', nextLabel cg') \<and> func cg' = func cg"

text \<open>A host table whose primitives leave the interpreter as it is; the examples use it.\<close>

definition host0 :: "u64 \<Rightarrow> Interp \<Rightarrow> error + Interp" where
  "host0 f st = Inr st"

text \<open>The global scope at the end of the chain of parents.\<close>

fun root :: "Scope \<Rightarrow> Scope" where
  "root (GlobalScope funcs' protos) = GlobalScope funcs' protos"
| "root (FuncScope parent args) = root parent"
| "root (BlockScope parent locals) = root parent"

text \<open>
  An emitter state whose stream has grown to \<open>2 ^ 32\<close> bytes, with one pending reference
  to the function label \<open>1\<close>: the \<^verbatim>\<open>PUSH_FUNC\<close> at offset \<open>0\<close> (its byte is \<open>0\<close>) with
  the 8-byte placeholder at offset \<open>1\<close>.
\<close>

definition cg_4GiB :: Codegen where
  "cg_4GiB =
     \<lparr>code = replicate (2 ^ 32) 0, depth = 1, nextLabel = 1, funcs = [''f'' \<mapsto> 1],
      labelToAddress = Map.empty, fixups = [1 \<mapsto> [1]], func = None\<rparr>"

text \<open>
  The labels that have a fixup site and no address yet.
\<close>

definition pending :: "Codegen \<Rightarrow> Label set" where
  "pending cg = {l. sites_of cg l \<noteq> [] \<and> labelToAddress cg l = None}"

text \<open>
  Every function label was minted (it is at most the label counter), and no two function
  names share a label.
\<close>

definition labels_fresh :: "Codegen \<Rightarrow> bool" where
  "labels_fresh cg \<longleftrightarrow>
     (\<forall>n l. funcs cg n = Some l \<longrightarrow> l \<le> nextLabel cg) \<and>
     (\<forall>n1 n2 l. funcs cg n1 = Some l \<and> funcs cg n2 = Some l \<longrightarrow> n1 = n2)"

text \<open>
  An example: a module with a prototype, two top-level statements and two functions,
  
  \<^verbatim>\<open>func print(x: int): int = "print_int"; print(g()); func f(a: int): int { return a + 1 }\<close>
  \<^verbatim>\<open>while (0) f(1); func g(): int { return f(2) }\<close>,

  a runtime table that holds the primitive \<open>7\<close> for \<^verbatim>\<open>print_int\<close>, and the program:
  at offset 0 \<^verbatim>\<open>PUSH_FUNC 93\<close>, \<^verbatim>\<open>CALL\<close>, \<^verbatim>\<open>PUSH_PROTO 7\<close>, \<^verbatim>\<open>CALL\<close>, \<^verbatim>\<open>POP\<close>; at 21
  \<^verbatim>\<open>PUSH_INT 0\<close>, \<^verbatim>\<open>JUMP_FALSE 68\<close>, \<^verbatim>\<open>PUSH_INT 1\<close>, \<^verbatim>\<open>PUSH_FUNC 69\<close>, \<^verbatim>\<open>CALL\<close>, \<^verbatim>\<open>POP\<close>,
  \<^verbatim>\<open>JUMP 21\<close>; at 68 \<^verbatim>\<open>STOP\<close>; at 69 the body of \<open>f\<close>, \<^verbatim>\<open>PEEK 1\<close>, \<^verbatim>\<open>PUSH_INT 1\<close>, \<^verbatim>\<open>ADD\<close>,
  \<^verbatim>\<open>RET 0 1\<close>; at 93 the body of \<open>g\<close>, \<^verbatim>\<open>PUSH_INT 2\<close>, \<^verbatim>\<open>PUSH_FUNC 69\<close>, \<^verbatim>\<open>CALL\<close>,
  \<^verbatim>\<open>RET 0 0\<close>.
\<close>

definition example_fns :: "string \<rightharpoonup> RuntimeFn" where
  "example_fns = [''print_int'' \<mapsto> 7]"

definition example_module :: Module where
  "example_module =
     [T_Proto (ProtoDecl ''print'' [(''x'', ''int'')] ''int'' ''print_int''),
      T_Stmt (ExprStmt (CallExpr (RefExpr ''print'') [CallExpr (RefExpr ''g'') []])),
      T_Func (FuncDecl ''f'' [(''a'', ''int'')] ''int''
        [ReturnStmt (BinaryExpr K_ADD (RefExpr ''a'') (IntExpr 1))]),
      T_Stmt (WhileStmt (IntExpr 0) (ExprStmt (CallExpr (RefExpr ''f'') [IntExpr 1]))),
      T_Func (FuncDecl ''g'' [] ''int'' [ReturnStmt (CallExpr (RefExpr ''f'') [IntExpr 2])])]"

definition example_program :: "byte list" where
  "example_program =
     [0, 93, 0, 0, 0, 0, 0, 0, 0, 5, 1, 7, 0, 0, 0, 0, 0, 0, 0, 5, 4,
      2, 0, 0, 0, 0, 0, 0, 0, 0, 17, 68, 0, 0, 0, 0, 0, 0, 0,
      2, 1, 0, 0, 0, 0, 0, 0, 0, 0, 69, 0, 0, 0, 0, 0, 0, 0, 5, 4,
      18, 21, 0, 0, 0, 0, 0, 0, 0,
      19,
      3, 1, 0, 0, 0, 2, 1, 0, 0, 0, 0, 0, 0, 0, 6, 16, 0, 0, 0, 0, 1, 0, 0, 0,
      2, 2, 0, 0, 0, 0, 0, 0, 0, 0, 69, 0, 0, 0, 0, 0, 0, 0, 5, 16, 0, 0, 0, 0, 0, 0, 0, 0]"

text \<open>
  The module \<^verbatim>\<open>f(); func f(): int { let x: int; x; let x: int = 5; return x }\<close> and its
  program: \<^verbatim>\<open>PUSH_FUNC 12\<close>, \<^verbatim>\<open>CALL\<close>, \<^verbatim>\<open>POP\<close>, \<^verbatim>\<open>STOP\<close>, and at offset 12
  \<^verbatim>\<open>PEEK 0\<close>, \<^verbatim>\<open>POP\<close>, \<^verbatim>\<open>PUSH_INT 5\<close>, \<^verbatim>\<open>PEEK 0\<close>, \<^verbatim>\<open>RET 1 0\<close>, \<^verbatim>\<open>POP\<close>.
\<close>

definition let_ref_module :: Module where
  "let_ref_module =
     [T_Stmt (ExprStmt (CallExpr (RefExpr ''f'') [])),
      T_Func (FuncDecl ''f'' [] ''int''
        [LetStmt ''x'' ''int'' None, ExprStmt (RefExpr ''x''),
         LetStmt ''x'' ''int'' (Some (IntExpr 5)), ReturnStmt (RefExpr ''x'')])]"

definition let_ref_program :: "byte list" where
  "let_ref_program =
     [0, 12, 0, 0, 0, 0, 0, 0, 0, 5, 4, 19,
      3, 0, 0, 0, 0, 4,
      2, 5, 0, 0, 0, 0, 0, 0, 0,
      3, 0, 0, 0, 0,
      16, 1, 0, 0, 0, 0, 0, 0, 0, 4]"

section \<open>Properties of the interpreter\<close>

subsection \<open>Auxiliary facts\<close>

lemma bind_err_Inr [simp]: "bind_err (Inr x) f = f x"
  by (simp add: bind_err_def)

lemma bind_err_Inl [simp]: "bind_err (Inl e) f = Inl e"
  by (simp add: bind_err_def)

lemma Pop_Cons: "stack st = v # vs \<Longrightarrow> Pop st = Inr (v, st\<lparr>stack := vs\<rparr>)"
  by (simp add: Pop_def)

lemma PopInt_Cons: "stack st = V_INT n # vs \<Longrightarrow> PopInt st = Inr (n, st\<lparr>stack := vs\<rparr>)"
  by (simp add: PopInt_def Pop_def)

lemma PopInt2:
  "stack st = V_INT rhs # V_INT lhs # rest \<Longrightarrow>
   bind_err (PopInt st) (\<lambda>(r, st). bind_err (PopInt st) (\<lambda>(l, st). f r l st)) =
   f rhs lhs (st\<lparr>stack := rest\<rparr>)"
  by (simp add: PopInt_Cons)

lemma sint64_range: "- (2 ^ 63) \<le> sint (w :: u64) \<and> sint w < 2 ^ 63"
  using sint_ge [of w] sint_lt [of w] by simp

lemma wrap64: "sint (word_of_int k :: u64) = (k + 2 ^ 63) mod 2 ^ 64 - 2 ^ 63"
  by (simp add: sint_sbintrunc' signed_take_bit_eq_take_bit_shift take_bit_eq_mod)

lemma sint_add64: "sint (a + b :: u64) = (sint a + sint b + 2 ^ 63) mod 2 ^ 64 - 2 ^ 63"
  by (simp add: sint_word_ariths signed_take_bit_eq_take_bit_shift take_bit_eq_mod)

lemma sint_sub64: "sint (a - b :: u64) = (sint a - sint b + 2 ^ 63) mod 2 ^ 64 - 2 ^ 63"
  by (simp add: sint_word_ariths signed_take_bit_eq_take_bit_shift take_bit_eq_mod)

lemma mod_cases64:
  fixes x :: int
  assumes "- (2 ^ 64) \<le> x" "x < 2 * 2 ^ 64"
  shows "x mod 2 ^ 64 = (if x < 0 then x + 2 ^ 64 else if x < 2 ^ 64 then x else x - 2 ^ 64)"
proof -
  consider "x < 0" | "0 \<le> x \<and> x < 2 ^ 64" | "2 ^ 64 \<le> x" by linarith
  then show ?thesis
  proof cases
    case 1
    then have "(x + 2 ^ 64) mod 2 ^ 64 = x + 2 ^ 64"
      using assms by (intro mod_pos_pos_trivial) auto
    then show ?thesis using 1 by simp
  next
    case 2
    then show ?thesis by simp
  next
    case 3
    then have "(x - 2 ^ 64) mod 2 ^ 64 = x - 2 ^ 64"
      using assms by (intro mod_pos_pos_trivial) auto
    then show ?thesis using 3 by (simp add: mod_diff_right_eq [symmetric] del: mod_diff_right_eq) 
  qed
qed

lemma add_overflow_iff:
  fixes lhs rhs :: u64
  defines "res \<equiv> rhs + lhs"
  shows "(sint res < 0 \<and> sint rhs \<ge> 0 \<and> sint lhs \<ge> 0 \<or> sint res \<ge> 0 \<and> sint rhs < 0 \<and> sint lhs < 0)
     \<longleftrightarrow> \<not> (- (2 ^ 63) \<le> sint lhs + sint rhs \<and> sint lhs + sint rhs < 2 ^ 63)"
   and "- (2 ^ 63) \<le> sint lhs + sint rhs \<and> sint lhs + sint rhs < 2 ^ 63 \<Longrightarrow> sint res = sint lhs + sint rhs"
proof -
  let ?x = "sint rhs + sint lhs + 2 ^ 63"
  have r: "- (2 ^ 63) \<le> sint lhs" "sint lhs < 2 ^ 63" "- (2 ^ 63) \<le> sint rhs" "sint rhs < 2 ^ 63"
    using sint64_range by auto
  have "sint res = ?x mod 2 ^ 64 - 2 ^ 63" by (simp add: res_def sint_add64)
  also have "?x mod 2 ^ 64 = (if ?x < 0 then ?x + 2 ^ 64 else if ?x < 2 ^ 64 then ?x else ?x - 2 ^ 64)"
    using r by (intro mod_cases64) auto
  finally have e: "sint res = (if ?x < 0 then ?x + 2 ^ 64 else if ?x < 2 ^ 64 then ?x else ?x - 2 ^ 64) - 2 ^ 63" .
  show "(sint res < 0 \<and> sint rhs \<ge> 0 \<and> sint lhs \<ge> 0 \<or> sint res \<ge> 0 \<and> sint rhs < 0 \<and> sint lhs < 0)
     \<longleftrightarrow> \<not> (- (2 ^ 63) \<le> sint lhs + sint rhs \<and> sint lhs + sint rhs < 2 ^ 63)"
    using r unfolding e by (auto split: if_splits)
  show "- (2 ^ 63) \<le> sint lhs + sint rhs \<and> sint lhs + sint rhs < 2 ^ 63 \<Longrightarrow> sint res = sint lhs + sint rhs"
    using r unfolding e by (auto split: if_splits)
qed

lemma sub_overflow_iff:
  fixes lhs rhs :: u64
  defines "res \<equiv> lhs - rhs"
  shows "(sint res > 0 \<and> sint rhs \<ge> 0 \<and> sint lhs \<le> 0 \<or> sint res < 0 \<and> sint rhs < 0 \<and> sint lhs \<ge> 0)
     \<longleftrightarrow> \<not> (- (2 ^ 63) \<le> sint lhs - sint rhs \<and> sint lhs - sint rhs < 2 ^ 63)"
   and "- (2 ^ 63) \<le> sint lhs - sint rhs \<and> sint lhs - sint rhs < 2 ^ 63 \<Longrightarrow> sint res = sint lhs - sint rhs"
proof -
  let ?x = "sint lhs - sint rhs + 2 ^ 63"
  have r: "- (2 ^ 63) \<le> sint lhs" "sint lhs < 2 ^ 63" "- (2 ^ 63) \<le> sint rhs" "sint rhs < 2 ^ 63"
    using sint64_range by auto
  have "sint res = ?x mod 2 ^ 64 - 2 ^ 63" by (simp add: res_def sint_sub64)
  also have "?x mod 2 ^ 64 = (if ?x < 0 then ?x + 2 ^ 64 else if ?x < 2 ^ 64 then ?x else ?x - 2 ^ 64)"
    using r by (intro mod_cases64) auto
  finally have e: "sint res = (if ?x < 0 then ?x + 2 ^ 64 else if ?x < 2 ^ 64 then ?x else ?x - 2 ^ 64) - 2 ^ 63" .
  show "(sint res > 0 \<and> sint rhs \<ge> 0 \<and> sint lhs \<le> 0 \<or> sint res < 0 \<and> sint rhs < 0 \<and> sint lhs \<ge> 0)
     \<longleftrightarrow> \<not> (- (2 ^ 63) \<le> sint lhs - sint rhs \<and> sint lhs - sint rhs < 2 ^ 63)"
    using r unfolding e by (auto split: if_splits)
  show "- (2 ^ 63) \<le> sint lhs - sint rhs \<and> sint lhs - sint rhs < 2 ^ 63 \<Longrightarrow> sint res = sint lhs - sint rhs"
    using r unfolding e by (auto split: if_splits)
qed


subsection \<open>ADD and SUB trap exactly on signed overflow\<close>

text \<open>
  Claim C3. With two \<open>Int\<close> operands on the stack (\<open>rhs\<close> on top of \<open>lhs\<close>), \<^verbatim>\<open>ADD\<close>
  raises ``overflow error'' if and only if the mathematical sum \<open>lhs + rhs\<close> lies outside
  the signed 64-bit range, and otherwise replaces the operands by an \<open>Int\<close> equal to
  that sum; \<^verbatim>\<open>SUB\<close> does the same for the difference \<open>lhs - rhs\<close>. The intermediate
  result wraps modulo \<open>2 ^ 64\<close>.
\<close>

theorem Exec_ADD_SUB_overflow:
  fixes lhs rhs :: u64
  assumes "stack st = V_INT rhs # V_INT lhs # rest"
  shows "(Exec host ADD st = Inl (RuntimeError ''overflow error'') \<longleftrightarrow>
            \<not> (- (2 ^ 63) \<le> sint lhs + sint rhs \<and> sint lhs + sint rhs < 2 ^ 63)) \<and>
         (- (2 ^ 63) \<le> sint lhs + sint rhs \<and> sint lhs + sint rhs < 2 ^ 63 \<longrightarrow>
            (\<exists>res. Exec host ADD st = Inr (Continue (st\<lparr>stack := V_INT res # rest\<rparr>)) \<and>
                   sint res = sint lhs + sint rhs)) \<and>
         (Exec host SUB st = Inl (RuntimeError ''overflow error'') \<longleftrightarrow>
            \<not> (- (2 ^ 63) \<le> sint lhs - sint rhs \<and> sint lhs - sint rhs < 2 ^ 63)) \<and>
         (- (2 ^ 63) \<le> sint lhs - sint rhs \<and> sint lhs - sint rhs < 2 ^ 63 \<longrightarrow>
            (\<exists>res. Exec host SUB st = Inr (Continue (st\<lparr>stack := V_INT res # rest\<rparr>)) \<and>
                   sint res = sint lhs - sint rhs))"
proof -
  define RA where "RA \<longleftrightarrow> - (2 ^ 63) \<le> sint lhs + sint rhs \<and> sint lhs + sint rhs < 2 ^ 63"
  define RS where "RS \<longleftrightarrow> - (2 ^ 63) \<le> sint lhs - sint rhs \<and> sint lhs - sint rhs < 2 ^ 63"
  define CA where "CA \<longleftrightarrow> sint (rhs + lhs) < 0 \<and> sint rhs \<ge> 0 \<and> sint lhs \<ge> 0 \<or>
          sint (rhs + lhs) \<ge> 0 \<and> sint rhs < 0 \<and> sint lhs < 0"
  define CS where "CS \<longleftrightarrow> sint (lhs - rhs) > 0 \<and> sint rhs \<ge> 0 \<and> sint lhs \<le> 0 \<or>
          sint (lhs - rhs) < 0 \<and> sint rhs < 0 \<and> sint lhs \<ge> 0"
  have add: "Exec host ADD st =
      (if CA then Inl (RuntimeError ''overflow error'')
       else Inr (Continue (st\<lparr>stack := V_INT (rhs + lhs) # rest\<rparr>)))"
    using assms unfolding CA_def by (simp add: PopInt_Cons Push_def Let_def)
  have sub: "Exec host SUB st =
      (if CS then Inl (RuntimeError ''overflow error'')
       else Inr (Continue (st\<lparr>stack := V_INT (lhs - rhs) # rest\<rparr>)))"
    using assms unfolding CS_def by (simp add: PopInt_Cons Push_def Let_def)
  have ca: "CA \<longleftrightarrow> \<not> RA" unfolding CA_def RA_def by (rule add_overflow_iff(1))
  have cs: "CS \<longleftrightarrow> \<not> RS" unfolding CS_def RS_def by (rule sub_overflow_iff(1))
  have va: "sint (rhs + lhs) = sint lhs + sint rhs" if RA
    using that unfolding RA_def by (rule add_overflow_iff(2))
  have vs: "sint (lhs - rhs) = sint lhs - sint rhs" if RS
    using that unfolding RS_def by (rule sub_overflow_iff(2))
  have 1: "Exec host ADD st = Inl (RuntimeError ''overflow error'') \<longleftrightarrow> \<not> RA"
    unfolding add ca by simp
  have 2: "\<exists>res. Exec host ADD st = Inr (Continue (st\<lparr>stack := V_INT res # rest\<rparr>)) \<and>
                   sint res = sint lhs + sint rhs" if RA
    using that va unfolding add ca by (intro exI [of _ "rhs + lhs"]) simp
  have 3: "Exec host SUB st = Inl (RuntimeError ''overflow error'') \<longleftrightarrow> \<not> RS"
    unfolding sub cs by simp
  have 4: "\<exists>res. Exec host SUB st = Inr (Continue (st\<lparr>stack := V_INT res # rest\<rparr>)) \<and>
                   sint res = sint lhs - sint rhs" if RS
    using that vs unfolding sub cs by (intro exI [of _ "lhs - rhs"]) simp
  from 1 2 3 4 show ?thesis unfolding RA_def RS_def by blast
qed

theorem Exec_ADD_SUB_overflow_witness:
  "Exec host0 ADD \<lparr>prog = [], pc = 0, stack = [V_INT 1, V_INT 9223372036854775807]\<rparr>
     = Inl (RuntimeError ''overflow error'') \<and>
   Exec host0 SUB \<lparr>prog = [], pc = 0, stack = [V_INT 1, V_INT 9223372036854775807]\<rparr>
     \<noteq> Inl (RuntimeError ''overflow error'')"
  using Exec_ADD_SUB_overflow
    [of "\<lparr>prog = [], pc = 0, stack = [V_INT 1, V_INT 9223372036854775807]\<rparr>" 1
      9223372036854775807 "[]" host0]
  by simp

subsection \<open>DIV and MOD\<close>

lemma sint_word_of_int64:
  "- (2 ^ 63) \<le> k \<Longrightarrow> k < 2 ^ 63 \<Longrightarrow> sint (word_of_int k :: u64) = k"
  by (simp add: wrap64 mod_cases64)

lemma sdiv_in_range64:
  fixes l r :: int
  assumes l: "- (2 ^ 63) \<le> l" "l < 2 ^ 63" and r: "r \<noteq> 0"
    and n: "\<not> (l = - (2 ^ 63) \<and> r = - 1)"
  shows "- (2 ^ 63) \<le> l sdiv r \<and> l sdiv r < 2 ^ 63"
proof -
  have b: "- \<bar>l\<bar> \<le> l sdiv r" "l sdiv r \<le> \<bar>l\<bar>"
    using sdiv_int_range [of l r] by auto
  show ?thesis
  proof (cases "l = - (2 ^ 63)")
    case False
    with l have "\<bar>l\<bar> < 2 ^ 63" by linarith
    with b show ?thesis by linarith
  next
    case True
    with n have r1: "r \<noteq> - 1" by simp
    have lo: "- (2 ^ 63) \<le> l sdiv r" using b(1) True by simp
    have "l sdiv r < 2 ^ 63"
    proof (cases "r > 0")
      case True
      then have "l sdiv r = - (\<bar>l\<bar> div r)"
        using \<open>l = - (2 ^ 63)\<close> by (simp add: signed_divide_int_def)
      moreover have "0 \<le> \<bar>l\<bar> div r" using True by (simp add: pos_imp_zdiv_nonneg_iff)
      ultimately show ?thesis by simp
    next
      case False
      with r r1 have r2: "2 \<le> \<bar>r\<bar>" "r < 0" by linarith+
      have "l sdiv r = \<bar>l\<bar> div \<bar>r\<bar>"
        using \<open>l = - (2 ^ 63)\<close> r2(2) by (simp add: signed_divide_int_def)
      also have "\<dots> \<le> \<bar>l\<bar> div 2"
        using r2(1) by (intro zdiv_mono2) auto
      also have "\<dots> < 2 ^ 63" using \<open>l = - (2 ^ 63)\<close> by simp
      finally show ?thesis .
    qed
    with lo show ?thesis by simp
  qed
qed

lemma smod_in_range64:
  fixes l r :: int
  assumes "- (2 ^ 63) \<le> r" "r < 2 ^ 63" "r \<noteq> 0"
  shows "- (2 ^ 63) \<le> l smod r \<and> l smod r < 2 ^ 63"
  using smod_int_range [of r l] assms by auto


text \<open>
  Claim C5, amended. With two \<open>Int\<close> operands on the stack, \<^verbatim>\<open>DIV\<close> and \<^verbatim>\<open>MOD\<close> raise
  ``division by 0'' if and only if \<open>rhs\<close> is zero. When \<open>rhs\<close> is not zero and the operands
  are not \<open>lhs = - 2 ^ 63\<close> with \<open>rhs = - 1\<close>, \<^verbatim>\<open>DIV\<close> replaces the operands by the quotient
  truncated towards zero and \<^verbatim>\<open>MOD\<close> by the remainder with the sign of \<open>lhs\<close>.
\<close>

theorem Exec_DIV_MOD_by_0:
  fixes lhs rhs :: u64
  assumes "stack st = V_INT rhs # V_INT lhs # rest"
  shows "(Exec host DIV st = Inl (RuntimeError ''division by 0'') \<longleftrightarrow> rhs = 0) \<and>
         (Exec host MOD st = Inl (RuntimeError ''division by 0'') \<longleftrightarrow> rhs = 0) \<and>
         (rhs \<noteq> 0 \<and> \<not> (sint lhs = - (2 ^ 63) \<and> sint rhs = - 1) \<longrightarrow>
            (\<exists>q r. Exec host DIV st = Inr (Continue (st\<lparr>stack := V_INT q # rest\<rparr>)) \<and>
                   sint q = sgn (sint lhs) * sgn (sint rhs) * (\<bar>sint lhs\<bar> div \<bar>sint rhs\<bar>) \<and>
                   Exec host MOD st = Inr (Continue (st\<lparr>stack := V_INT r # rest\<rparr>)) \<and>
                   sint r = sgn (sint lhs) * (\<bar>sint lhs\<bar> mod \<bar>sint rhs\<bar>)))"
proof -
  define U where "U \<longleftrightarrow> div_undefined lhs rhs"
  have dv: "Exec host DIV st =
      (if rhs = 0 then Inl (RuntimeError ''division by 0'')
       else if U then Inl (Undefined ''signed division overflow'')
       else Inr (Continue (st\<lparr>stack := V_INT (word_of_int (sint lhs sdiv sint rhs)) # rest\<rparr>)))"
    using assms unfolding U_def by (simp add: PopInt_Cons Push_def Let_def)
  have md: "Exec host MOD st =
      (if rhs = 0 then Inl (RuntimeError ''division by 0'')
       else if U then Inl (Undefined ''signed division overflow'')
       else Inr (Continue (st\<lparr>stack := V_INT (word_of_int (sint lhs smod sint rhs)) # rest\<rparr>)))"
    using assms unfolding U_def by (simp add: PopInt_Cons Push_def Let_def)
  have 1: "Exec host DIV st = Inl (RuntimeError ''division by 0'') \<longleftrightarrow> rhs = 0"
    unfolding dv by simp
  have 2: "Exec host MOD st = Inl (RuntimeError ''division by 0'') \<longleftrightarrow> rhs = 0"
    unfolding md by simp
  have 3: "\<exists>q r. Exec host DIV st = Inr (Continue (st\<lparr>stack := V_INT q # rest\<rparr>)) \<and>
                   sint q = sgn (sint lhs) * sgn (sint rhs) * (\<bar>sint lhs\<bar> div \<bar>sint rhs\<bar>) \<and>
                   Exec host MOD st = Inr (Continue (st\<lparr>stack := V_INT r # rest\<rparr>)) \<and>
                   sint r = sgn (sint lhs) * (\<bar>sint lhs\<bar> mod \<bar>sint rhs\<bar>)"
    if nz: "rhs \<noteq> 0" and nu: "\<not> (sint lhs = - (2 ^ 63) \<and> sint rhs = - 1)"
  proof -
    have U: "\<not> U" using nu by (simp add: U_def div_undefined_def)
    have r0: "sint rhs \<noteq> 0" using nz by (simp add: signed_eq_0_iff)
    note rg = sint64_range [of lhs] sint64_range [of rhs]
    have q: "sint (word_of_int (sint lhs sdiv sint rhs) :: u64) = sint lhs sdiv sint rhs"
      using sdiv_in_range64 [of "sint lhs" "sint rhs"] rg r0 nu
      by (intro sint_word_of_int64) auto
    have r: "sint (word_of_int (sint lhs smod sint rhs) :: u64) = sint lhs smod sint rhs"
      using smod_in_range64 [of "sint rhs" "sint lhs"] rg r0
      by (intro sint_word_of_int64) auto
    show ?thesis
      apply (rule exI [of _ "word_of_int (sint lhs sdiv sint rhs)"])
      apply (rule exI [of _ "word_of_int (sint lhs smod sint rhs)"])
      unfolding dv md q r using nz U
      by (simp add: signed_divide_int_def signed_modulo_int_def)
  qed
  from 1 2 3 show ?thesis by blast
qed

theorem Exec_DIV_MOD_by_0_witness:
  "Exec host0 DIV \<lparr>prog = [], pc = 0, stack = [V_INT 0, V_INT 10]\<rparr>
     = Inl (RuntimeError ''division by 0'') \<and>
   Exec host0 MOD \<lparr>prog = [], pc = 0, stack = [V_INT 3, V_INT (- 7)]\<rparr>
     \<noteq> Inl (RuntimeError ''division by 0'')"
  using Exec_DIV_MOD_by_0 [of "\<lparr>prog = [], pc = 0, stack = [V_INT 0, V_INT 10]\<rparr>" 0 10 "[]" host0]
    Exec_DIV_MOD_by_0 [of "\<lparr>prog = [], pc = 0, stack = [V_INT 3, V_INT (- 7)]\<rparr>" 3 "- 7" "[]" host0]
  by simp

text \<open>
  Claim C5 as stated fails at \<open>lhs = - 2 ^ 63\<close>, \<open>rhs = - 1\<close>: \<open>rhs\<close> is not zero, the
  quotient \<open>2 ^ 63\<close> is no 64-bit signed integer, C++ leaves \<^verbatim>\<open>lhs / rhs\<close> and
  \<^verbatim>\<open>lhs % rhs\<close> undefined, and no result is pushed.
\<close>

theorem Exec_DIV_MOD_min_counterexample:
  "(- 1 :: u64) \<noteq> 0 \<and>
   Exec host0 DIV \<lparr>prog = [], pc = 0, stack = [V_INT (- 1), V_INT (- 9223372036854775808)]\<rparr>
     = Inl (Undefined ''signed division overflow'') \<and>
   Exec host0 MOD \<lparr>prog = [], pc = 0, stack = [V_INT (- 1), V_INT (- 9223372036854775808)]\<rparr>
     = Inl (Undefined ''signed division overflow'')"
  by (simp add: PopInt_def Pop_def div_undefined_def)


subsection \<open>The comparison opcodes\<close>

text \<open>
  Claim C1 at \<open>lhs = 2\<close>, \<open>rhs = 1\<close> (\<open>rhs\<close> is popped first, so it is the head of the
  stack): \<open>lhs > rhs\<close> holds, and \<^verbatim>\<open>GREATER\<close> pushes \<open>0\<close>, because the source evaluates
  \<^verbatim>\<open>rhs > lhs\<close>.
\<close>

theorem Exec_GREATER_transposed:
  "Exec host0 GREATER \<lparr>prog = [], pc = 0, stack = [V_INT 1, V_INT 2]\<rparr>
     = Inr (Continue \<lparr>prog = [], pc = 0, stack = [V_INT 0]\<rparr>)"
  by (simp add: PopInt_def Pop_def Push_def of_cond_def)

text \<open>What the five comparison opcodes push, for all operands.\<close>

lemma Exec_comparisons:
  assumes "stack st = V_INT rhs # V_INT lhs # rest"
  shows "Exec host GREATER st =
           Inr (Continue (st\<lparr>stack := V_INT (of_cond (sint rhs > sint lhs)) # rest\<rparr>))"
    and "Exec host LOWER st =
           Inr (Continue (st\<lparr>stack := V_INT (of_cond (sint rhs < sint lhs)) # rest\<rparr>))"
    and "Exec host GREATER_EQ st =
           Inr (Continue (st\<lparr>stack := V_INT (of_cond (sint rhs \<ge> sint lhs)) # rest\<rparr>))"
    and "Exec host LOWER_EQ st =
           Inr (Continue (st\<lparr>stack := V_INT (of_cond (sint rhs \<le> sint lhs)) # rest\<rparr>))"
    and "Exec host IS_EQ st =
           Inr (Continue (st\<lparr>stack := V_INT (of_cond (rhs = lhs)) # rest\<rparr>))"
  using assms by (simp_all add: PopInt_Cons Push_def)

subsection \<open>Immediates and RET\<close>

lemma length_le_bytes [simp]: "length (le_bytes k n) = k"
  by (induction k arbitrary: n) auto

lemma le_nat_le_bytes: "le_nat (le_bytes k n) = n mod 256 ^ k"
proof (induction k arbitrary: n)
  case 0
  then show ?case by simp
next
  case (Suc k)
  have "unat (of_nat (n mod 256) :: byte) = n mod 256"
    by (simp add: unat_of_nat take_bit_eq_mod)
  then have "le_nat (le_bytes (Suc k) n) = n mod 256 + 256 * ((n div 256) mod 256 ^ k)"
    by (simp add: Suc.IH)
  also have "\<dots> = n mod 256 ^ Suc k"
    by (simp add: mod_mult2_eq)
  finally show ?case .
qed

lemma length_bytes_u32 [simp]: "length (bytes_u32 w) = 4"
  by (simp add: bytes_u32_def)

lemma length_bytes_u64 [simp]: "length (bytes_u64 w) = 8"
  by (simp add: bytes_u64_def)

lemma decode_bytes_u32: "(of_nat (le_nat (bytes_u32 w)) :: u32) = w"
proof -
  have "unat w < 256 ^ 4" using unsigned_less [of w] by simp
  then show ?thesis by (simp add: bytes_u32_def le_nat_le_bytes)
qed

lemma decode_bytes_u64: "(of_nat (le_nat (bytes_u64 w)) :: u64) = w"
proof -
  have "unat w < 256 ^ 8" using unsigned_less [of w] by simp
  then show ?thesis by (simp add: bytes_u64_def le_nat_le_bytes)
qed

lemma Read_unsigned_at:
  assumes "take 4 (drop (unat (pc st)) (prog st)) = bytes_u32 w"
  shows "Read_unsigned st = Inr (w, st\<lparr>pc := pc st + 4\<rparr>)"
proof -
  have "length (take 4 (drop (unat (pc st)) (prog st))) = 4"
    unfolding assms by simp
  then have "unat (pc st) + 4 \<le> length (prog st)" by simp
  then show ?thesis
    by (simp add: Read_unsigned_def Read_bytes_def assms decode_bytes_u32)
qed

lemma Exec_RET_frame:
  assumes len: "length (prog st) < 2 ^ 64"
    and imm: "take 8 (drop (unat (pc st)) (prog st)) = bytes_u32 d @ bytes_u32 n"
    and stk: "stack st = v # below"
    and d: "unat d \<le> length below" "drop (unat d) below = V_ADDR a # caller"
    and n: "unat n \<le> length caller"
  shows "Exec host RET st = Inr (Continue (st\<lparr>pc := a, stack := v # drop (unat n) caller\<rparr>))"
proof -
  let ?p = "unat (pc st)"
  have "length (take 8 (drop ?p (prog st))) = 8" unfolding imm by simp
  then have bound: "?p + 8 \<le> length (prog st)" by simp
  have "take 4 (take 8 (drop ?p (prog st))) = bytes_u32 d" unfolding imm by simp
  then have t1: "take 4 (drop ?p (prog st)) = bytes_u32 d" by simp
  have "drop 4 (take 8 (drop ?p (prog st))) = bytes_u32 n" unfolding imm by simp
  then have t2: "take 4 (drop (?p + 4) (prog st)) = bytes_u32 n"
    by (simp add: drop_take add.commute)
  have p4: "unat (pc st + 4) = ?p + 4"
    using bound len by (simp add: unat_word_ariths)
  have r1: "Read_unsigned st = Inr (d, st\<lparr>pc := pc st + 4\<rparr>)"
    using t1 by (rule Read_unsigned_at)
  have r2: "Read_unsigned (st\<lparr>pc := pc st + 4\<rparr>) = Inr (n, st\<lparr>pc := pc st + 4 + 4\<rparr>)"
    using Read_unsigned_at [of "st\<lparr>pc := pc st + 4\<rparr>" n] t2 p4 by simp
  show ?thesis
    using stk d n
    by (simp add: r1 r2 Pop_def PopAddr_def resize_down_def Push_def)
qed

section \<open>Properties of the code generator\<close>

subsection \<open>What every emitter preserves\<close>

text \<open>
  A property of the emitter state that survives appending bytes, a change of the depth
  counter and \<^verbatim>\<open>EmitFixup\<close> survives the lowering of an expression.
\<close>

lemma bind_err_eq_Inr: "bind_err m f = Inr y \<longleftrightarrow> (\<exists>x. m = Inr x \<and> f x = Inr y)"
  by (cases m) (simp_all add: bind_err_def)

lemma emit_drop1_inv:
  assumes "\<And>cg bs. P cg \<Longrightarrow> P (Emit_bytes bs cg)" and "\<And>cg d. P cg \<Longrightarrow> P (cg\<lparr>depth := d\<rparr>)"
  shows "emit_drop1 op cg = Inr cg' \<Longrightarrow> P cg \<Longrightarrow> P cg'"
  by (auto simp: emit_drop1_def Emit_Opcode_def assms split: if_splits)

lemma EmitKind_inv:
  assumes "\<And>cg bs. P cg \<Longrightarrow> P (Emit_bytes bs cg)" and "\<And>cg d. P cg \<Longrightarrow> P (cg\<lparr>depth := d\<rparr>)"
  shows "EmitKind kind cg = Inr cg' \<Longrightarrow> P cg \<Longrightarrow> P cg'"
  by (cases kind)
    (auto simp: EmitAdd_def EmitSub_def EmitMul_def EmitDiv_def EmitMod_def EmitGreater_def
      EmitLower_def EmitGreaterEqual_def EmitLowerEqual_def EmitIsEqual_def
      intro: emit_drop1_inv [where P = P] assms)

lemma LowerRefExpr_inv:
  assumes E: "\<And>cg bs. P cg \<Longrightarrow> P (Emit_bytes bs cg)" and D: "\<And>cg d. P cg \<Longrightarrow> P (cg\<lparr>depth := d\<rparr>)"
    and F: "\<And>cg l. P cg \<Longrightarrow> P (EmitFixup l cg)"
  shows "LowerRefExpr sc name cg = Inr cg' \<Longrightarrow> P cg \<Longrightarrow> P cg'"
proof -
  assume a: "LowerRefExpr sc name cg = Inr cg'" and p: "P cg"
  then obtain b where b: "Lookup sc name = Inr b"
    by (auto simp: LowerRefExpr_def bind_err_eq_Inr)
  show "P cg'"
  proof (cases b)
    case (B_FUNC l)
    with a b have "cg' = EmitPushFunc l cg" by (simp add: LowerRefExpr_def)
    then show ?thesis using p by (simp add: EmitPushFunc_def Emit_Opcode_def E D F)
  next
    case (B_PROTO f)
    with a b have "cg' = EmitPushProto f cg" by (simp add: LowerRefExpr_def)
    then show ?thesis using p by (simp add: EmitPushProto_def Emit_Opcode_def Emit_u64_def E D)
  next
    case (B_ARG i)
    with a b have "cg' = EmitPeek (depth cg + i + 1) cg" by (simp add: LowerRefExpr_def)
    then show ?thesis using p by (simp add: EmitPeek_def Emit_Opcode_def Emit_u32_def E D)
  next
    case (B_LOCAL i)
    with a b have "cg' = EmitPeek (depth cg - i) cg" by (simp add: LowerRefExpr_def)
    then show ?thesis using p by (simp add: EmitPeek_def Emit_Opcode_def Emit_u32_def E D)
  qed
qed

lemma LowerExpr_inv:
  assumes E: "\<And>cg bs. P cg \<Longrightarrow> P (Emit_bytes bs cg)" and D: "\<And>cg d. P cg \<Longrightarrow> P (cg\<lparr>depth := d\<rparr>)"
    and F: "\<And>cg l. P cg \<Longrightarrow> P (EmitFixup l cg)"
  shows "LowerExpr sc e cg = Inr cg' \<Longrightarrow> P cg \<Longrightarrow> P cg'"
    and "LowerArgs sc es cg = Inr cg' \<Longrightarrow> P cg \<Longrightarrow> P cg'"
proof (induction sc e cg and sc es cg arbitrary: cg' and cg' rule: LowerExpr_LowerArgs.induct)
  case (1 scope name cg)
  then show ?case using LowerRefExpr_inv [where P = P, OF E D F] by simp
next
  case (2 scope kind lhs rhs cg)
  from "2.prems"(1) obtain c1 c2 where
    a: "LowerExpr scope lhs cg = Inr c1" and b: "LowerExpr scope rhs c1 = Inr c2"
    and c: "EmitKind kind c2 = Inr cg'"
    by (auto simp: bind_err_eq_Inr)
  have "P c1" using "2.IH"(1) [OF a "2.prems"(2)] .
  then have "P c2" using "2.IH"(2) [OF a b] by simp
  then show ?case using EmitKind_inv [where P = P, OF E D c] by simp
next
  case (3 scope callee args cg)
  from "3.prems"(1) obtain c1 c2 where
    a: "LowerArgs scope args cg = Inr c1" and b: "LowerExpr scope callee c1 = Inr c2"
    and c: "cg' = (EmitCall (length args) c2)\<lparr>depth := depth (EmitCall (length args) c2) - of_nat (length args)\<rparr>"
    by (auto simp: bind_err_eq_Inr Let_def)
  have "P c1" using "3.IH"(1) [OF a "3.prems"(2)] .
  then have "P c2" using "3.IH"(2) [OF a b] by simp
  then show ?case unfolding c by (simp add: EmitCall_def Emit_Opcode_def E D)
next
  case (4 scope number cg)
  then show ?case
    by (auto simp: LowerIntExpr_def EmitInt_def Emit_Opcode_def Emit_u64_def E D)
next
  case (5 scope cg)
  then show ?case by simp
next
  case (6 scope arg args cg)
  from "6.prems"(1) obtain c1 where
    a: "LowerArgs scope args cg = Inr c1" and b: "LowerExpr scope arg c1 = Inr cg'"
    by (auto simp: bind_err_eq_Inr)
  have "P c1" using "6.IH"(1) [OF a "6.prems"(2)] .
  then show ?case using "6.IH"(2) [OF a b] by simp
qed

lemma func_Emit_bytes [simp]: "func (Emit_bytes bs cg) = func cg"
  by (simp add: Emit_bytes_def)

lemma func_EmitFixup [simp]: "func (EmitFixup l cg) = func cg"
  by (simp add: EmitFixup_def Emit_u64_def split: option.splits)

lemma LowerExpr_func: "LowerExpr sc e cg = Inr cg' \<Longrightarrow> func cg' = func cg"
  by (rule LowerExpr_inv(1) [where P = "\<lambda>c. func c = func cg"]) simp_all

lemma EmitReturn_code:
  "depth cg > 0 \<Longrightarrow>
   EmitReturn cg = Inr (cg\<lparr>depth := depth cg - 1,
     code := code cg @ opcode_byte RET # bytes_u32 (depth cg - 1) @ bytes_u32 (arg_count cg)\<rparr>)"
  by (simp add: EmitReturn_def Emit_Opcode_def Emit_u32_def Emit_bytes_def arg_count_def Let_def)


subsection \<open>RET and EmitReturn\<close>

text \<open>
  Claim C4. Interpreter: when the two immediates \<open>d\<close> and \<open>n\<close> of a \<^verbatim>\<open>RET\<close> follow at
  \<open>pc\<close>, the stack holds the return value \<open>v\<close> on top of at least \<open>d\<close> values, an
  \<open>Addr a\<close> comes right after these \<open>d\<close> values and at least \<open>n\<close> values lie below it,
  then \<^verbatim>\<open>RET\<close> pops \<open>v\<close>, drops exactly \<open>d\<close> values, pops the address into \<open>pc\<close>,
  drops exactly \<open>n\<close> further values and pushes \<open>v\<close>. Code generator: for a Return
  statement whose expression lowers to the state \<open>cg1\<close>, the emitted code is that of the
  expression, then \<^verbatim>\<open>RET\<close>, then the depth after the expression minus one, then the
  argument count of the function being lowered (\<open>0\<close> at top level, where \<open>func\<close> is
  \<open>None\<close>), each as a 32-bit immediate.
\<close>

theorem RET_unwinds_what_EmitReturn_records:
  "(length (prog st) < 2 ^ 64 \<and>
    take 8 (drop (unat (pc st)) (prog st)) = bytes_u32 d @ bytes_u32 n \<and>
    stack st = v # below \<and> unat d \<le> length below \<and>
    drop (unat d) below = V_ADDR a # caller \<and> unat n \<le> length caller \<longrightarrow>
      Exec host RET st = Inr (Continue (st\<lparr>pc := a, stack := v # drop (unat n) caller\<rparr>))) \<and>
   (LowerExpr scope e cg = Inr cg1 \<and> depth cg1 > 0 \<longrightarrow>
      LowerStmt scope (ReturnStmt e) cg =
        Inr (scope, cg1\<lparr>depth := depth cg1 - 1,
          code := code cg1 @ opcode_byte RET # bytes_u32 (depth cg1 - 1) @
            bytes_u32 (case func cg of None \<Rightarrow> 0 | Some decl \<Rightarrow> of_nat (length (func_args decl)))\<rparr>))"
proof (intro conjI impI)
  assume "length (prog st) < 2 ^ 64 \<and>
    take 8 (drop (unat (pc st)) (prog st)) = bytes_u32 d @ bytes_u32 n \<and>
    stack st = v # below \<and> unat d \<le> length below \<and>
    drop (unat d) below = V_ADDR a # caller \<and> unat n \<le> length caller"
  then show "Exec host RET st = Inr (Continue (st\<lparr>pc := a, stack := v # drop (unat n) caller\<rparr>))"
    by (intro Exec_RET_frame) auto
next
  assume a: "LowerExpr scope e cg = Inr cg1 \<and> depth cg1 > 0"
  then have f: "func cg1 = func cg" by (auto dest: LowerExpr_func)
  show "LowerStmt scope (ReturnStmt e) cg =
        Inr (scope, cg1\<lparr>depth := depth cg1 - 1,
          code := code cg1 @ opcode_byte RET # bytes_u32 (depth cg1 - 1) @
            bytes_u32 (case func cg of None \<Rightarrow> 0 | Some decl \<Rightarrow> of_nat (length (func_args decl)))\<rparr>)"
    using a by (simp add: LowerReturnStmt_def EmitReturn_code arg_count_def f)
qed

theorem RET_unwinds_what_EmitReturn_records_witness:
  "Exec host0 RET
     \<lparr>prog = [1, 0, 0, 0, 2, 0, 0, 0], pc = 0,
      stack = [V_INT 7, V_INT 5, V_ADDR 100, V_INT 1, V_INT 2, V_INT 9]\<rparr>
     = Inr (Continue \<lparr>prog = [1, 0, 0, 0, 2, 0, 0, 0], pc = 100, stack = [V_INT 7, V_INT 9]\<rparr>) \<and>
   code (snd (projr (LowerStmt (GlobalScope Map.empty Map.empty) (ReturnStmt (IntExpr 5)) init_Codegen)))
     = [2, 5, 0, 0, 0, 0, 0, 0, 0, 16, 0, 0, 0, 0, 0, 0, 0, 0]"
proof -
  let ?st = "\<lparr>prog = [1, 0, 0, 0, 2, 0, 0, 0], pc = 0,
      stack = [V_INT 7, V_INT 5, V_ADDR 100, V_INT 1, V_INT 2, V_INT 9]\<rparr>"
  let ?G = "GlobalScope Map.empty Map.empty"
  let ?cg1 = "EmitInt 5 init_Codegen"
  note inst = RET_unwinds_what_EmitReturn_records
    [of ?st 1 2 "V_INT 7" "[V_INT 5, V_ADDR 100, V_INT 1, V_INT 2, V_INT 9]" 100
      "[V_INT 1, V_INT 2, V_INT 9]" host0 ?G "IntExpr 5" init_Codegen ?cg1]
  have b: "take 8 (drop (unat (pc ?st)) (prog ?st)) = bytes_u32 1 @ bytes_u32 2"
    by code_simp
  have h1: "length (prog ?st) < 2 ^ 64 \<and>
    take 8 (drop (unat (pc ?st)) (prog ?st)) = bytes_u32 1 @ bytes_u32 2 \<and>
    stack ?st = V_INT 7 # [V_INT 5, V_ADDR 100, V_INT 1, V_INT 2, V_INT 9] \<and>
    unat (1 :: u32) \<le> length [V_INT 5, V_ADDR 100, V_INT 1, V_INT 2, V_INT 9] \<and>
    drop (unat (1 :: u32)) [V_INT 5, V_ADDR 100, V_INT 1, V_INT 2, V_INT 9]
      = V_ADDR 100 # [V_INT 1, V_INT 2, V_INT 9] \<and>
    unat (2 :: u32) \<le> length [V_INT 1, V_INT 2, V_INT 9]"
    using b by simp
  have h2: "LowerExpr ?G (IntExpr 5) init_Codegen = Inr ?cg1 \<and> depth ?cg1 > 0"
    by (simp add: LowerIntExpr_def EmitInt_def Emit_u64_def Emit_Opcode_def Emit_bytes_def
        init_Codegen_def)
  have c1: "Exec host0 RET ?st =
      Inr (Continue (?st\<lparr>pc := 100, stack := V_INT 7 # drop (unat (2 :: u32)) [V_INT 1, V_INT 2, V_INT 9]\<rparr>))"
    using inst h1 by blast
  have c2: "LowerStmt ?G (ReturnStmt (IntExpr 5)) init_Codegen =
      Inr (?G, ?cg1\<lparr>depth := depth ?cg1 - 1,
          code := code ?cg1 @ opcode_byte RET # bytes_u32 (depth ?cg1 - 1) @
            bytes_u32 (case func init_Codegen of None \<Rightarrow> 0 | Some decl \<Rightarrow> of_nat (length (func_args decl)))\<rparr>)"
    using inst h2 by blast
  have e: "code ?cg1 @ opcode_byte RET # bytes_u32 (depth ?cg1 - 1) @
            bytes_u32 (case func init_Codegen of None \<Rightarrow> 0 | Some decl \<Rightarrow> of_nat (length (func_args decl)))
        = [2, 5, 0, 0, 0, 0, 0, 0, 0, 16, 0, 0, 0, 0, 0, 0, 0, 0]"
    by code_simp
  show ?thesis unfolding c1 c2 using e by simp
qed

subsection \<open>Lookup in the global scope\<close>

lemma Lookup_PROTO_root:
  "Lookup sc name = Inr (B_PROTO f) \<Longrightarrow> root sc = GlobalScope funcs' protos \<Longrightarrow>
   funcs' name = None \<and> protos name = Some f"
  by (induction sc) (auto split: option.splits)

text \<open>
  Claim C10. For a name bound in the global scope both as a function and as a prototype,
  \<^verbatim>\<open>GlobalScope::Lookup\<close> returns the \<open>FUNC\<close> binding, and no lookup through a scope chain
  that ends in this global scope returns a \<open>PROTO\<close> binding for the name.
\<close>

theorem GlobalScope_Lookup_prefers_FUNC:
  "funcs' name = Some entry \<and> protos name = Some fn \<longrightarrow>
     Lookup (GlobalScope funcs' protos) name = Inr (B_FUNC entry) \<and>
     (\<forall>sc f. root sc = GlobalScope funcs' protos \<longrightarrow> Lookup sc name \<noteq> Inr (B_PROTO f))"
  by (auto dest: Lookup_PROTO_root)

theorem GlobalScope_Lookup_prefers_FUNC_witness:
  "Lookup (GlobalScope [''f'' \<mapsto> 1] [''f'' \<mapsto> 42]) ''f'' = Inr (B_FUNC 1) \<and>
   Lookup (BlockScope (FuncScope (GlobalScope [''f'' \<mapsto> 1] [''f'' \<mapsto> 42]) [(''n'', 0)]) []) ''f''
     \<noteq> Inr (B_PROTO 42)"
  using GlobalScope_Lookup_prefers_FUNC [of "[''f'' \<mapsto> 1]" "''f''" 1 "[''f'' \<mapsto> 42]" 42]
  by simp


subsection \<open>Labels and fixups\<close>

lemma patch_zero_site:
  assumes "5 \<le> n"
  shows "memcpy_at (replicate n (0 :: byte)) 1 [0, 0, 0, 0] = Inr (replicate n 0)"
proof -
  have e: "take 1 (replicate n 0) @ [0, 0, 0, 0] @ drop (1 + length [0 :: byte, 0, 0, 0]) (replicate n 0)
      = replicate n (0 :: byte)"
    using assms by (intro replicate_eqI) auto
  have l: "1 + length [0 :: byte, 0, 0, 0] \<le> length (replicate n (0 :: byte))"
    using assms by simp
  show ?thesis unfolding memcpy_at_def using l e by (simp only: if_True)
qed

lemma le_bytes_4:
  "le_bytes 4 n = [of_nat (n mod 256), of_nat (n div 256 mod 256),
     of_nat (n div 256 div 256 mod 256), of_nat (n div 256 div 256 div 256 mod 256)]"
proof -
  have "(4 :: nat) = Suc (Suc (Suc (Suc 0)))" by simp
  then show ?thesis by (simp only: le_bytes.simps)
qed

lemma le_bytes_8:
  "le_bytes 8 n = le_bytes 4 n @ le_bytes 4 (n div 256 div 256 div 256 div 256)"
proof -
  have "(8 :: nat) = Suc (Suc (Suc (Suc (Suc (Suc (Suc (Suc 0)))))))" by simp
  then show ?thesis unfolding le_bytes_4 by (simp only: le_bytes.simps append.simps)
qed

lemma low_bytes_2_32: "take 4 (bytes_u64 4294967296) = [0, 0, 0, 0]"
  by (simp add: bytes_u64_def le_bytes_8 le_bytes_4)

lemma bytes_2_32: "bytes_u64 4294967296 = [0, 0, 0, 0, 1, 0, 0, 0]"
  by (simp add: bytes_u64_def le_bytes_8 le_bytes_4)

lemma EmitFixup_resolved:
  "labelToAddress cg label = Some a \<Longrightarrow> EmitFixup label cg = cg\<lparr>code := code cg @ bytes_u64 a\<rparr>"
  by (simp add: EmitFixup_def Emit_u64_def Emit_bytes_def)


text \<open>
  Claim C2 at a label address of \<open>2 ^ 32\<close>. \<^verbatim>\<open>EmitLabel\<close> records the address
  \<open>2 ^ 32\<close> for the label and copies its low 4 bytes, all zero, to the site: the stream
  is unchanged, and the 8 bytes of the site still encode \<open>0\<close>, not \<open>2 ^ 32\<close>.
\<close>

theorem EmitLabel_keeps_32_bits:
  "EmitLabel 1 cg_4GiB = Inr (cg_4GiB\<lparr>labelToAddress := [1 \<mapsto> 4294967296]\<rparr>) \<and>
   take 8 (drop 1 (code cg_4GiB)) = bytes_u64 0 \<and>
   bytes_u64 0 \<noteq> bytes_u64 4294967296"
proof -
  have a: "(of_nat (length (code cg_4GiB)) :: u64) = 4294967296"
    by (simp add: cg_4GiB_def)
  have "memcpy_at (replicate (2 ^ 32) (0 :: byte)) 1 [0, 0, 0, 0] = Inr (replicate (2 ^ 32) 0)"
    by (rule patch_zero_site) simp
  then have b: "patch_sites 4294967296 (code cg_4GiB) (sites_of cg_4GiB 1) = Inr (code cg_4GiB)"
    by (simp add: cg_4GiB_def sites_of_def low_bytes_2_32)
  have c: "sites_of cg_4GiB 1 = [1]" "fixups cg_4GiB = [1 \<mapsto> [1]]" "labelToAddress cg_4GiB 1 = None"
    by (simp_all add: cg_4GiB_def sites_of_def)
  have 1: "EmitLabel 1 cg_4GiB = Inr (cg_4GiB\<lparr>labelToAddress := [1 \<mapsto> 4294967296]\<rparr>)"
    unfolding EmitLabel_def Let_def a b by (simp add: c) (simp add: cg_4GiB_def sites_of_def)
  have z: "bytes_u64 0 = [0, 0, 0, 0, 0, 0, 0, 0]"
    by (simp add: bytes_u64_def le_bytes_8 le_bytes_4)
  have "[0, 0, 0, 0, 0, 0, 0, 0] = replicate 8 (0 :: byte)"
    by (intro replicate_eqI) auto
  then have 2: "take 8 (drop 1 (code cg_4GiB)) = bytes_u64 0"
    unfolding z by (simp add: cg_4GiB_def)
  show ?thesis using 1 2 z bytes_2_32 by simp
qed

text \<open>
  The same holds at every address: a site that held the placeholder \<open>0\<close> reads, after
  \<^verbatim>\<open>EmitLabel\<close>, the address modulo \<open>2 ^ 32\<close>, while the label table holds the whole
  address.
\<close>

lemma le_bytes_mod: "le_bytes k (n mod 256 ^ k) = le_bytes k n"
proof (induction k arbitrary: n)
  case 0
  then show ?case by simp
next
  case (Suc k)
  have a: "n mod 256 ^ Suc k mod 256 = n mod 256"
    by (simp add: mod_mod_cancel)
  have b: "n mod 256 ^ Suc k div 256 = (n div 256) mod 256 ^ k"
    by (simp add: div_mult2_eq mod_mult2_eq)
  show ?case by (simp only: le_bytes.simps a b Suc.IH)
qed

lemma take_4_bytes_u64: "take 4 (bytes_u64 a) = le_bytes 4 (unat a)"
  by (simp add: bytes_u64_def le_bytes_8)

lemma bytes_u64_low:
  "bytes_u64 (of_nat (n mod 2 ^ 32)) = le_bytes 4 n @ [0, 0, 0, 0]"
proof -
  have lt: "n mod 2 ^ 32 < 2 ^ 64"
    by (rule less_trans [of _ "2 ^ 32"]) simp_all
  have u: "unat (of_nat (n mod 2 ^ 32) :: u64) = n mod 2 ^ 32"
    using lt by (simp add: unat_of_nat take_bit_eq_mod)
  have z: "n mod 2 ^ 32 div 256 div 256 div 256 div 256 = 0"
    by (simp add: div_mult2_eq [symmetric])
  have "le_bytes 4 (n mod 256 ^ 4) = le_bytes 4 n" by (rule le_bytes_mod)
  then have m: "le_bytes 4 (n mod 2 ^ 32) = le_bytes 4 n" by simp
  show ?thesis
    unfolding bytes_u64_def u le_bytes_8 z m by (simp add: le_bytes_4)
qed

lemma EmitLabel_single_site:
  assumes s: "sites_of cg l = [loc]" and r: "loc + 8 \<le> length (code cg)"
    and z: "take 8 (drop loc (code cg)) = bytes_u64 0"
    and n: "labelToAddress cg l = None"
  shows "\<exists>cg'. EmitLabel l cg = Inr cg' \<and>
           labelToAddress cg' l = Some (of_nat (length (code cg))) \<and>
           take 8 (drop loc (code cg')) = bytes_u64 (of_nat (length (code cg) mod 2 ^ 32))"
proof -
  let ?a = "of_nat (length (code cg)) :: u64"
  let ?c = "code cg"
  let ?c' = "take loc ?c @ le_bytes 4 (unat ?a) @ drop (loc + 4) ?c"
  have p: "patch_sites ?a ?c (sites_of cg l) = Inr ?c'"
    using r by (simp add: s memcpy_at_def take_4_bytes_u64)
  have "drop 4 (take 8 (drop loc ?c)) = drop 4 (bytes_u64 0)" using z by simp
  then have hi: "take 4 (drop (loc + 4) ?c) = [0, 0, 0, 0]"
    by (simp add: drop_take add.commute bytes_u64_def le_bytes_8 le_bytes_4)
  have "le_bytes 4 (unat ?a mod 256 ^ 4) = le_bytes 4 (unat ?a)" by (rule le_bytes_mod)
  moreover have "unat ?a mod 256 ^ 4 = length ?c mod 256 ^ 4"
    by (simp add: unat_of_nat take_bit_eq_mod mod_mod_cancel)
  moreover have "le_bytes 4 (length ?c mod 256 ^ 4) = le_bytes 4 (length ?c)" by (rule le_bytes_mod)
  ultimately have lo: "le_bytes 4 (unat ?a) = le_bytes 4 (length ?c)" by simp
  have "take 8 (drop loc ?c') = le_bytes 4 (unat ?a) @ take 4 (drop (loc + 4) ?c)"
    using r by simp
  then have t: "take 8 (drop loc ?c') = bytes_u64 (of_nat (length ?c mod 2 ^ 32))"
    unfolding hi lo bytes_u64_low by simp
  show ?thesis
    unfolding EmitLabel_def Let_def p using n t by simp
qed


subsection \<open>References to arguments and locals\<close>

lemma Exec_PEEK_at:
  assumes "take 4 (drop (unat (pc st)) (prog st)) = bytes_u32 idx"
    and "unat idx < length (stack st)"
  shows "Exec host PEEK st =
    Inr (Continue (st\<lparr>pc := pc st + 4, stack := stack st ! unat idx # stack st\<rparr>))"
  using assms by (simp add: Read_unsigned_at Push_def)

text \<open>
  A reference that resolves to the argument binding \<open>i\<close> is lowered to \<^verbatim>\<open>PEEK\<close> with the
  index \<open>depth + i + 1\<close>, one that resolves to the local binding \<open>d\<close> to \<^verbatim>\<open>PEEK\<close> with
  \<open>depth - d\<close>. A Let with an initialiser records for its name the depth after the
  initialiser, so that the value of the local is slot \<open>d - 1\<close> of the frame. At run time,
  with the frame \<open>frame\<close> (\<open>local_0\<close> first, as many values as the static depth) above the
  saved \<open>pc\<close> and the arguments \<open>args\<close> (\<open>arg_0\<close> first) below it, the first \<^verbatim>\<open>PEEK\<close>
  pushes \<open>args ! i\<close>, and the second pushes \<open>frame ! (d - 1)\<close> when the snapshot has a slot,
  \<open>1 \<le> d \<le> depth\<close>.
\<close>

lemma LowerRefExpr_PEEK_index:
  "(Lookup scope name = Inr (B_ARG i) \<longrightarrow>
      LowerRefExpr scope name cg =
        Inr (cg\<lparr>depth := depth cg + 1,
                code := code cg @ opcode_byte PEEK # bytes_u32 (depth cg + i + 1)\<rparr>)) \<and>
   (Lookup scope name = Inr (B_LOCAL d) \<longrightarrow>
      LowerRefExpr scope name cg =
        Inr (cg\<lparr>depth := depth cg + 1,
                code := code cg @ opcode_byte PEEK # bytes_u32 (depth cg - d)\<rparr>)) \<and>
   (LowerExpr (BlockScope parent locals) init cg = Inr cg1 \<longrightarrow>
      LowerStmt (BlockScope parent locals) (LetStmt name type (Some init)) cg =
        Inr (BlockScope parent (AList.update name (depth cg1) locals), cg1) \<and>
      Lookup (BlockScope parent (AList.update name (depth cg1) locals)) name =
        Inr (B_LOCAL (depth cg1))) \<and>
   (stack st = rev frame @ V_ADDR ret # args @ rest \<and> length frame = unat (depth cg) \<longrightarrow>
      (unat i < length args \<and> unat (depth cg) + unat i + 1 < 2 ^ 32 \<and>
       take 4 (drop (unat (pc st)) (prog st)) = bytes_u32 (depth cg + i + 1) \<longrightarrow>
         Exec host PEEK st =
           Inr (Continue (st\<lparr>pc := pc st + 4, stack := args ! unat i # stack st\<rparr>))) \<and>
      (0 < unat d \<and> unat d \<le> unat (depth cg) \<and>
       take 4 (drop (unat (pc st)) (prog st)) = bytes_u32 (depth cg - d) \<longrightarrow>
         Exec host PEEK st =
           Inr (Continue (st\<lparr>pc := pc st + 4, stack := frame ! (unat d - 1) # stack st\<rparr>))))"
proof (intro conjI impI)
  assume "Lookup scope name = Inr (B_ARG i)"
  then show "LowerRefExpr scope name cg =
        Inr (cg\<lparr>depth := depth cg + 1,
                code := code cg @ opcode_byte PEEK # bytes_u32 (depth cg + i + 1)\<rparr>)"
    by (simp add: LowerRefExpr_def EmitPeek_def Emit_u32_def Emit_Opcode_def Emit_bytes_def)
next
  assume "Lookup scope name = Inr (B_LOCAL d)"
  then show "LowerRefExpr scope name cg =
        Inr (cg\<lparr>depth := depth cg + 1,
                code := code cg @ opcode_byte PEEK # bytes_u32 (depth cg - d)\<rparr>)"
    by (simp add: LowerRefExpr_def EmitPeek_def Emit_u32_def Emit_Opcode_def Emit_bytes_def)
next
  assume "LowerExpr (BlockScope parent locals) init cg = Inr cg1"
  then show "LowerStmt (BlockScope parent locals) (LetStmt name type (Some init)) cg =
        Inr (BlockScope parent (AList.update name (depth cg1) locals), cg1)"
    by (simp add: LowerLetStmt_def)
next
  show "Lookup (BlockScope parent (AList.update name (depth cg1) locals)) name =
        Inr (B_LOCAL (depth cg1))"
    by (simp add: update_conv')
next
  assume s: "stack st = rev frame @ V_ADDR ret # args @ rest \<and> length frame = unat (depth cg)"
    and a: "unat i < length args \<and> unat (depth cg) + unat i + 1 < 2 ^ 32 \<and>
       take 4 (drop (unat (pc st)) (prog st)) = bytes_u32 (depth cg + i + 1)"
  from a have u: "unat (depth cg + i + 1) = unat (depth cg) + unat i + 1"
    by (simp add: unat_word_ariths)
  have "stack st ! unat (depth cg + i + 1) = args ! unat i"
    unfolding u using s a by (simp add: nth_append)
  moreover have "unat (depth cg + i + 1) < length (stack st)"
    unfolding u using s a by simp
  ultimately show "Exec host PEEK st =
           Inr (Continue (st\<lparr>pc := pc st + 4, stack := args ! unat i # stack st\<rparr>))"
    using a Exec_PEEK_at [of st "depth cg + i + 1" host] by simp
next
  assume s: "stack st = rev frame @ V_ADDR ret # args @ rest \<and> length frame = unat (depth cg)"
    and a: "0 < unat d \<and> unat d \<le> unat (depth cg) \<and>
       take 4 (drop (unat (pc st)) (prog st)) = bytes_u32 (depth cg - d)"
  from a have u: "unat (depth cg - d) = unat (depth cg) - unat d"
    by (simp add: unat_sub word_le_nat_alt)
  have "stack st ! unat (depth cg - d) = frame ! (unat d - 1)"
    unfolding u using s a by (simp add: nth_append rev_nth)
  moreover have "unat (depth cg - d) < length (stack st)"
    unfolding u using s a by simp
  ultimately show "Exec host PEEK st =
           Inr (Continue (st\<lparr>pc := pc st + 4, stack := frame ! (unat d - 1) # stack st\<rparr>))"
    using a Exec_PEEK_at [of st "depth cg - d" host] by simp
qed

lemma LowerRefExpr_PEEK_index_example:
  "LowerRefExpr (BlockScope (FuncScope (GlobalScope Map.empty Map.empty) [(''a'', 0), (''b'', 1)]) [(''x'', 1)])
     ''b'' (init_Codegen\<lparr>depth := 1\<rparr>)
     = Inr (init_Codegen\<lparr>depth := 2, code := [3, 3, 0, 0, 0]\<rparr>) \<and>
   Exec host0 PEEK \<lparr>prog = [3, 0, 0, 0], pc = 0,
       stack = [V_INT 10, V_ADDR 99, V_INT 20, V_INT 30]\<rparr>
     = Inr (Continue \<lparr>prog = [3, 0, 0, 0], pc = 4,
         stack = [V_INT 30, V_INT 10, V_ADDR 99, V_INT 20, V_INT 30]\<rparr>) \<and>
   LowerRefExpr (BlockScope (FuncScope (GlobalScope Map.empty Map.empty) [(''a'', 0), (''b'', 1)]) [(''x'', 1)])
     ''x'' (init_Codegen\<lparr>depth := 1\<rparr>)
     = Inr (init_Codegen\<lparr>depth := 2, code := [3, 0, 0, 0, 0]\<rparr>) \<and>
   Exec host0 PEEK \<lparr>prog = [0, 0, 0, 0], pc = 0,
       stack = [V_INT 10, V_ADDR 99, V_INT 20, V_INT 30]\<rparr>
     = Inr (Continue \<lparr>prog = [0, 0, 0, 0], pc = 4,
         stack = [V_INT 10, V_INT 10, V_ADDR 99, V_INT 20, V_INT 30]\<rparr>)"
proof -
  let ?sc = "BlockScope (FuncScope (GlobalScope Map.empty Map.empty) [(''a'', 0), (''b'', 1)]) [(''x'', 1)]"
  let ?cg = "init_Codegen\<lparr>depth := 1\<rparr>"
  let ?stk = "[V_INT 10, V_ADDR 99, V_INT 20, V_INT 30]"
  let ?s1 = "\<lparr>prog = [3, 0, 0, 0], pc = 0, stack = ?stk\<rparr>"
  let ?s2 = "\<lparr>prog = [0, 0, 0, 0], pc = 0, stack = ?stk\<rparr>"
  have b3: "bytes_u32 3 = [3, 0, 0, 0]" and b0: "bytes_u32 0 = [0, 0, 0, 0]"
    by (simp_all add: bytes_u32_def le_bytes_4)
  have d: "depth ?cg = 1" by simp
  note A = LowerRefExpr_PEEK_index
    [of ?sc "''b''" 1 ?cg 0 "GlobalScope Map.empty Map.empty" "[]" "IntExpr 0" ?cg "''t''"
      ?s1 "[V_INT 10]" 99 "[V_INT 20, V_INT 30]" "[]" host0]
  note B = LowerRefExpr_PEEK_index
    [of ?sc "''x''" 0 ?cg 1 "GlobalScope Map.empty Map.empty" "[]" "IntExpr 0" ?cg "''t''"
      ?s2 "[V_INT 10]" 99 "[V_INT 20, V_INT 30]" "[]" host0]
  have la: "Lookup ?sc ''b'' = Inr (B_ARG 1)" by simp
  have lb: "Lookup ?sc ''x'' = Inr (B_LOCAL 1)" by simp
  have fa: "stack ?s1 = rev [V_INT 10] @ V_ADDR 99 # [V_INT 20, V_INT 30] @ [] \<and>
      length [V_INT 10] = unat (depth ?cg)" by simp
  have fb: "stack ?s2 = rev [V_INT 10] @ V_ADDR 99 # [V_INT 20, V_INT 30] @ [] \<and>
      length [V_INT 10] = unat (depth ?cg)" by simp
  have ha: "unat (1 :: u32) < length [V_INT 20, V_INT 30] \<and>
      unat (depth ?cg) + unat (1 :: u32) + 1 < 2 ^ 32 \<and>
      take 4 (drop (unat (pc ?s1)) (prog ?s1)) = bytes_u32 (depth ?cg + 1 + 1)"
    by (simp add: b3)
  have hb: "0 < unat (1 :: u32) \<and> unat (1 :: u32) \<le> unat (depth ?cg) \<and>
      take 4 (drop (unat (pc ?s2)) (prog ?s2)) = bytes_u32 (depth ?cg - 1)"
    by (simp add: b0)
  have 1: "LowerRefExpr ?sc ''b'' ?cg =
      Inr (?cg\<lparr>depth := depth ?cg + 1, code := code ?cg @ opcode_byte PEEK # bytes_u32 (depth ?cg + 1 + 1)\<rparr>)"
    using A la by blast
  have 2: "Exec host0 PEEK ?s1 =
      Inr (Continue (?s1\<lparr>pc := pc ?s1 + 4, stack := [V_INT 20, V_INT 30] ! unat (1 :: u32) # stack ?s1\<rparr>))"
    using A fa ha by blast
  have 3: "LowerRefExpr ?sc ''x'' ?cg =
      Inr (?cg\<lparr>depth := depth ?cg + 1, code := code ?cg @ opcode_byte PEEK # bytes_u32 (depth ?cg - 1)\<rparr>)"
    using B lb by blast
  have 4: "Exec host0 PEEK ?s2 =
      Inr (Continue (?s2\<lparr>pc := pc ?s2 + 4, stack := [V_INT 10] ! (unat (1 :: u32) - 1) # stack ?s2\<rparr>))"
    using B fb hb by blast
  show ?thesis
    unfolding 1 2 3 4 by (simp add: b3 b0 init_Codegen_def)
qed

text \<open>
  Claim C7 at \<^verbatim>\<open>f(); func f(): int { let x: int; x; let x: int = 5; return x }\<close>. The
  module translates with no assertion firing. The Let without initialiser records the
  snapshot \<open>0\<close> and pushes nothing, so the first reference to \<open>x\<close> is lowered to
  \<^verbatim>\<open>PEEK 0\<close> at depth \<open>0\<close>. After the call (two turns of the interpreter) the frame of
  \<open>f\<close> is the saved \<open>pc\<close> alone, with no argument and no local, and the third turn, the
  \<^verbatim>\<open>PEEK\<close>, pushes a copy of the saved \<open>pc\<close>: no local is copied.
\<close>

theorem let_without_initialiser_reads_saved_pc:
  "Translate Map.empty let_ref_module init_Codegen = Inr let_ref_program \<and>
   Lookup (AddLocal (BlockScope (FuncScope (GlobalScope [''f'' \<mapsto> 1] Map.empty) []) []) ''x'' 0) ''x''
     = Inr (B_LOCAL 0) \<and>
   take 5 (drop 12 let_ref_program) = opcode_byte PEEK # bytes_u32 0 \<and>
   Steps host0 2 \<lparr>prog = let_ref_program, pc = 0, stack = []\<rparr>
     = Inr (Continue \<lparr>prog = let_ref_program, pc = 12, stack = [V_ADDR 10]\<rparr>) \<and>
   Steps host0 3 \<lparr>prog = let_ref_program, pc = 0, stack = []\<rparr>
     = Inr (Continue \<lparr>prog = let_ref_program, pc = 17, stack = [V_ADDR 10, V_ADDR 10]\<rparr>)"
proof -
  have 1: "Translate Map.empty let_ref_module init_Codegen = Inr let_ref_program"
    by (simp add: Translate_def let_ref_module_def let_ref_program_def init_Codegen_def
        MakeLabel_def LowerFuncDecl_def EmitLabel_def sites_of_def LowerExprStmt_def
        LowerReturnStmt_def LowerRefExpr_def LowerLetStmt_def LowerIntExpr_def EmitPushFunc_def
        EmitFixup_def EmitCall_def EmitPop_def emit_drop1_def EmitPeek_def EmitReturn_def
        EmitInt_def Emit_Opcode_def Emit_u64_def Emit_u32_def Emit_bytes_def memcpy_at_def
        arg_count_def bytes_u64_def bytes_u32_def le_bytes_8 le_bytes_4 Let_def update_conv')
  have 2: "Lookup (AddLocal (BlockScope (FuncScope (GlobalScope [''f'' \<mapsto> 1] Map.empty) []) []) ''x'' 0) ''x''
     = Inr (B_LOCAL 0)"
    by (simp add: update_conv')
  have 3: "take 5 (drop 12 let_ref_program) = opcode_byte PEEK # bytes_u32 0"
    by (simp add: let_ref_program_def bytes_u32_def le_bytes_4)
  have 4: "Steps host0 2 \<lparr>prog = let_ref_program, pc = 0, stack = []\<rparr>
     = Inr (Continue \<lparr>prog = let_ref_program, pc = 12, stack = [V_ADDR 10]\<rparr>)"
    by code_simp
  have 5: "Steps host0 3 \<lparr>prog = let_ref_program, pc = 0, stack = []\<rparr>
     = Inr (Continue \<lparr>prog = let_ref_program, pc = 17, stack = [V_ADDR 10, V_ADDR 10]\<rparr>)"
    by code_simp
  show ?thesis using 1 2 3 4 5 by blast
qed

subsection \<open>The depth assertions of blocks and functions\<close>

text \<open>
  Claim C8 at \<^verbatim>\<open>func f(): int { let x: int }\<close>. The Let without initialiser declares a
  local and pushes nothing, so the block emits a \<^verbatim>\<open>POP\<close> at depth \<open>0\<close> and the assertion
  of \<^verbatim>\<open>EmitPop\<close> fires. In a block entered at depth \<open>1\<close> the \<^verbatim>\<open>POP\<close> goes through and
  the assertion on the block depth fires.
\<close>

theorem let_without_initialiser_breaks_depth:
  "Translate Map.empty [T_Func (FuncDecl ''f'' [] ''int'' [LetStmt ''x'' ''int'' None])] init_Codegen
     = Inl (AssertFailed ''no elements on stack'') \<and>
   LowerBlockStmt (GlobalScope Map.empty Map.empty) [LetStmt ''x'' ''int'' None]
     (init_Codegen\<lparr>depth := 1\<rparr>)
     = Inl (AssertFailed ''mismatched block depth on exit'')"
  by (simp add: Translate_def init_Codegen_def MakeLabel_def Emit_Opcode_def Emit_bytes_def
      LowerFuncDecl_def EmitLabel_def sites_of_def LowerLetStmt_def EmitPop_def emit_drop1_def
      Let_def)

subsection \<open>The raw emitters, for the layout of a translated module\<close>

lemma EmitLabel_cases:
  assumes "EmitLabel l cg = Inr cg'"
  obtains c' where "patch_sites (of_nat (length (code cg))) (code cg) (sites_of cg l) = Inr c'"
    and "cg' = cg\<lparr>code := c', fixups := (fixups cg)(l \<mapsto> sites_of cg l),
            labelToAddress := (case labelToAddress cg l of
                     Some a \<Rightarrow> labelToAddress cg
                   | None \<Rightarrow> (labelToAddress cg)(l \<mapsto> of_nat (length (code cg))))\<rparr>"
  using assms by (auto simp: EmitLabel_def Let_def bind_err_eq_Inr)

lemma sites_of_EmitLabel: "EmitLabel l cg = Inr cg' \<Longrightarrow> sites_of cg' x = sites_of cg x"
  by (erule EmitLabel_cases) (auto simp: sites_of_def)

lemma bound_EmitLabel: "EmitLabel l cg = Inr cg' \<Longrightarrow> labelToAddress cg' l \<noteq> None"
  by (erule EmitLabel_cases) (auto split: option.splits)

lemma labelToAddress_EmitLabel:
  "EmitLabel l cg = Inr cg' \<Longrightarrow> x \<noteq> l \<Longrightarrow> labelToAddress cg' x = labelToAddress cg x"
  by (erule EmitLabel_cases) (auto split: option.splits)

lemma bound_EmitLabel_mono:
  "EmitLabel l cg = Inr cg' \<Longrightarrow> labelToAddress cg x \<noteq> None \<Longrightarrow> labelToAddress cg' x \<noteq> None"
  by (erule EmitLabel_cases) (auto split: option.splits)

lemma frame_EmitLabel:
  "EmitLabel l cg = Inr cg' \<Longrightarrow>
   funcs cg' = funcs cg \<and> func cg' = func cg \<and> depth cg' = depth cg \<and> nextLabel cg' = nextLabel cg"
  by (erule EmitLabel_cases) auto

lemma sites_of_EmitFixup:
  "sites_of (EmitFixup l cg) x =
     (if x = l \<and> labelToAddress cg l = None then sites_of cg l @ [length (code cg)] else sites_of cg x)"
  by (auto simp: EmitFixup_def Emit_u64_def Emit_bytes_def sites_of_def split: option.splits)

lemma frame_EmitFixup [simp]:
  "labelToAddress (EmitFixup l cg) = labelToAddress cg" "funcs (EmitFixup l cg) = funcs cg"
  "depth (EmitFixup l cg) = depth cg" "nextLabel (EmitFixup l cg) = nextLabel cg"
  by (auto simp: EmitFixup_def Emit_u64_def Emit_bytes_def split: option.splits)

lemma frame_Emit_bytes [simp]:
  "labelToAddress (Emit_bytes bs cg) = labelToAddress cg" "funcs (Emit_bytes bs cg) = funcs cg"
  "depth (Emit_bytes bs cg) = depth cg" "nextLabel (Emit_bytes bs cg) = nextLabel cg"
  "fixups (Emit_bytes bs cg) = fixups cg" "code (Emit_bytes bs cg) = code cg @ bs"
  by (auto simp: Emit_bytes_def)

lemma sites_of_simps [simp]:
  "sites_of (Emit_bytes bs cg) = sites_of cg"
  "sites_of (cg\<lparr>depth := d\<rparr>) = sites_of cg"
  "sites_of (cg\<lparr>nextLabel := n\<rparr>) = sites_of cg"
  "sites_of (cg\<lparr>func := f\<rparr>) = sites_of cg"
  "sites_of (cg\<lparr>funcs := fs\<rparr>) = sites_of cg"
  by (auto simp: sites_of_def Emit_bytes_def fun_eq_iff)

subsection \<open>What every emitter preserves, for statements\<close>

lemma EmitJumpFalse_inv:
  assumes "\<And>cg bs. P cg \<Longrightarrow> P (Emit_bytes bs cg)" and "\<And>cg d. P cg \<Longrightarrow> P (cg\<lparr>depth := d\<rparr>)"
    and "\<And>cg l. P cg \<Longrightarrow> P (EmitFixup l cg)"
  shows "EmitJumpFalse l cg = Inr cg' \<Longrightarrow> P cg \<Longrightarrow> P cg'"
  by (auto simp: EmitJumpFalse_def Emit_Opcode_def assms split: if_splits)

lemma EmitJump_inv:
  assumes "\<And>cg bs. P cg \<Longrightarrow> P (Emit_bytes bs cg)" and "\<And>cg l. P cg \<Longrightarrow> P (EmitFixup l cg)"
  shows "P cg \<Longrightarrow> P (EmitJump l cg)"
  by (auto simp: EmitJump_def Emit_Opcode_def assms)

lemma EmitReturn_inv:
  assumes "\<And>cg bs. P cg \<Longrightarrow> P (Emit_bytes bs cg)" and "\<And>cg d. P cg \<Longrightarrow> P (cg\<lparr>depth := d\<rparr>)"
  shows "EmitReturn cg = Inr cg' \<Longrightarrow> P cg \<Longrightarrow> P cg'"
  by (auto simp: EmitReturn_def Emit_Opcode_def Emit_u32_def Let_def assms split: if_splits)

lemma EmitPops_inv:
  assumes "\<And>cg bs. P cg \<Longrightarrow> P (Emit_bytes bs cg)" and "\<And>cg d. P cg \<Longrightarrow> P (cg\<lparr>depth := d\<rparr>)"
  shows "EmitPops n cg = Inr cg' \<Longrightarrow> P cg \<Longrightarrow> P cg'"
proof (induction n arbitrary: cg)
  case 0
  then show ?case by simp
next
  case (Suc n)
  from Suc.prems(1) obtain c1 where a: "EmitPop cg = Inr c1" and b: "EmitPops n c1 = Inr cg'"
    by (auto simp: bind_err_eq_Inr)
  have "P c1" using emit_drop1_inv [where P = P, OF assms] a Suc.prems(2) by (simp add: EmitPop_def)
  then show ?case using Suc.IH [OF b] by simp
qed

lemma LowerStmt_inv:
  assumes E: "\<And>cg bs. P cg \<Longrightarrow> P (Emit_bytes bs cg)"
    and D: "\<And>cg d. P cg \<Longrightarrow> P (cg\<lparr>depth := d\<rparr>)"
    and F: "\<And>cg l. P cg \<Longrightarrow> P (EmitFixup l cg)"
    and L: "\<And>cg l cg'. P cg \<Longrightarrow> EmitLabel l cg = Inr cg' \<Longrightarrow> P cg'"
    and N: "\<And>cg n. P cg \<Longrightarrow> P (cg\<lparr>nextLabel := n\<rparr>)"
  shows "LowerStmt sc s cg = Inr (sc', cg') \<Longrightarrow> P cg \<Longrightarrow> P cg'"
    and "LowerBlockStmt sc ss cg = Inr (sc', cg') \<Longrightarrow> P cg \<Longrightarrow> P cg'"
    and "LowerStmts sc ss cg = Inr (sc', cg') \<Longrightarrow> P cg \<Longrightarrow> P cg'"
proof (induction sc s cg and sc ss cg and sc ss cg arbitrary: sc' cg' and sc' cg' and sc' cg'
    rule: LowerStmt_LowerBlockStmt_LowerStmts.induct)
  case (1 scope body cg)
  then show ?case by simp
next
  case (2 scope cond body cg)
  obtain entry c0 where m1: "MakeLabel cg = (entry, c0)" by (cases "MakeLabel cg")
  obtain exit c0' where m2: "MakeLabel c0 = (exit, c0')" by (cases "MakeLabel c0")
  from "2.prems"(1) m1 m2 obtain c1 c2 c3 s4 c4 where
    s1: "EmitLabel entry c0' = Inr c1" and s2: "LowerExpr scope cond c1 = Inr c2"
    and s3: "EmitJumpFalse exit c2 = Inr c3" and s4: "LowerStmt scope body c3 = Inr (s4, c4)"
    and s5: "EmitLabel exit (EmitJump entry c4) = Inr cg'"
    by (auto simp: bind_err_eq_Inr)
  have "P c0'" using m1 m2 "2.prems"(2) by (auto simp: MakeLabel_def N)
  then have "P c1" using L s1 by blast
  then have "P c2" using LowerExpr_inv(1) [where P = P, OF E D F s2] by simp
  then have "P c3" using EmitJumpFalse_inv [where P = P, OF E D F s3] by simp
  then have "P c4"
    using "2.IH" [OF m1 [symmetric] refl m2 [symmetric] refl s1 s2 s3 s4] by simp
  then have "P (EmitJump entry c4)" by (simp add: EmitJump_def Emit_Opcode_def E F)
  then show ?case using L s5 by blast
next
  case (3 scope cond body elseBranch cg)
  obtain entry c0 where m1: "MakeLabel cg = (entry, c0)" by (cases "MakeLabel cg")
  obtain elseLabel c0' where m2: "MakeLabel c0 = (elseLabel, c0')" by (cases "MakeLabel c0")
  obtain exit c0'' where m3: "MakeLabel c0' = (exit, c0'')" by (cases "MakeLabel c0'")
  from "3.prems"(1) m1 m2 m3 obtain c1 c2 c3 s4 c4 c5 s6 c6 where
    s1: "EmitLabel entry c0'' = Inr c1" and s2: "LowerExpr scope cond c1 = Inr c2"
    and s3: "EmitJumpFalse elseLabel c2 = Inr c3" and s4: "LowerStmt scope body c3 = Inr (s4, c4)"
    and s5: "EmitLabel elseLabel (EmitJump exit c4) = Inr c5"
    and s6: "(case elseBranch of Some stmt \<Rightarrow> LowerStmt s4 stmt c5 | None \<Rightarrow> Inr (s4, c5)) = Inr (s6, c6)"
    and s7: "EmitLabel exit c6 = Inr cg'"
    by (auto simp: bind_err_eq_Inr)
  have "P c0''" using m1 m2 m3 "3.prems"(2) by (auto simp: MakeLabel_def N)
  then have "P c1" using L s1 by blast
  then have "P c2" using LowerExpr_inv(1) [where P = P, OF E D F s2] by simp
  then have "P c3" using EmitJumpFalse_inv [where P = P, OF E D F s3] by simp
  then have "P c4"
    using "3.IH"(1) [OF m1 [symmetric] refl m2 [symmetric] refl m3 [symmetric] refl s1 s2 s3 s4]
    by simp
  then have "P (EmitJump exit c4)" by (simp add: EmitJump_def Emit_Opcode_def E F)
  then have p5: "P c5" using L s5 by blast
  have "P c6"
  proof (cases elseBranch)
    case None
    with s6 p5 show ?thesis by simp
  next
    case (Some stmt)
    with s6 have "LowerStmt s4 stmt c5 = Inr (s6, c6)" by simp
    then show ?thesis
      using "3.IH"(2) [OF m1 [symmetric] refl m2 [symmetric] refl m3 [symmetric] refl s1 s2 s3
          s4 refl s5 Some] p5
      by simp
  qed
  then show ?case using L s7 by blast
next
  case (4 scope e cg)
  then show ?case
    using LowerExpr_inv(1) [where P = P, OF E D F] emit_drop1_inv [where P = P, OF E D]
    by (auto simp: LowerExprStmt_def EmitPop_def bind_err_eq_Inr)
next
  case (5 scope e cg)
  then show ?case
    using LowerExpr_inv(1) [where P = P, OF E D F] EmitReturn_inv [where P = P, OF E D]
    by (auto simp: LowerReturnStmt_def bind_err_eq_Inr)
next
  case (6 scope name type init cg)
  then show ?case
    using LowerExpr_inv(1) [where P = P, OF E D F]
    by (auto simp: LowerLetStmt_def bind_err_eq_Inr split: option.splits)
next
  case (7 scope body cg)
  from "7.prems"(1) obtain bs c1 c2 where
    s1: "LowerStmts (BlockScope scope []) body cg = Inr (bs, c1)"
    and s2: "EmitPops (NumberOfLocals bs) c1 = Inr c2" and s3: "cg' = c2"
    by (auto simp: bind_err_eq_Inr Let_def split: if_splits)
  have "P c1" using "7.IH" [OF refl s1 "7.prems"(2)] .
  then show ?case using EmitPops_inv [where P = P, OF E D s2] s3 by simp
next
  case (8 scope cg)
  then show ?case by simp
next
  case (9 scope stmt stmts cg)
  from "9.prems"(1) obtain s1 c1 where
    a: "LowerStmt scope stmt cg = Inr (s1, c1)" and b: "LowerStmts s1 stmts c1 = Inr (sc', cg')"
    by (auto simp: bind_err_eq_Inr)
  have "P c1" using "9.IH"(1) [OF a "9.prems"(2)] .
  then show ?case using "9.IH"(2) [OF a refl b] by simp
qed

lemma LowerRefExpr_invF:
  assumes E: "\<And>cg bs. P cg \<Longrightarrow> P (Emit_bytes bs cg)" and D: "\<And>cg d. P cg \<Longrightarrow> P (cg\<lparr>depth := d\<rparr>)"
    and F: "\<And>cg l name. Lookup sc name = Inr (B_FUNC l) \<Longrightarrow> P cg \<Longrightarrow> P (EmitFixup l cg)"
  shows "LowerRefExpr sc name cg = Inr cg' \<Longrightarrow> P cg \<Longrightarrow> P cg'"
proof -
  assume a: "LowerRefExpr sc name cg = Inr cg'" and p: "P cg"
  then obtain b where b: "Lookup sc name = Inr b"
    by (auto simp: LowerRefExpr_def bind_err_eq_Inr)
  show "P cg'"
  proof (cases b)
    case (B_FUNC l)
    with a b have "cg' = EmitPushFunc l cg" by (simp add: LowerRefExpr_def)
    then show ?thesis using p b B_FUNC by (simp add: EmitPushFunc_def Emit_Opcode_def E D F)
  next
    case (B_PROTO f)
    with a b have "cg' = EmitPushProto f cg" by (simp add: LowerRefExpr_def)
    then show ?thesis using p by (simp add: EmitPushProto_def Emit_Opcode_def Emit_u64_def E D)
  next
    case (B_ARG i)
    with a b have "cg' = EmitPeek (depth cg + i + 1) cg" by (simp add: LowerRefExpr_def)
    then show ?thesis using p by (simp add: EmitPeek_def Emit_Opcode_def Emit_u32_def E D)
  next
    case (B_LOCAL i)
    with a b have "cg' = EmitPeek (depth cg - i) cg" by (simp add: LowerRefExpr_def)
    then show ?thesis using p by (simp add: EmitPeek_def Emit_Opcode_def Emit_u32_def E D)
  qed
qed

lemma LowerExpr_invF:
  assumes E: "\<And>cg bs. P cg \<Longrightarrow> P (Emit_bytes bs cg)" and D: "\<And>cg d. P cg \<Longrightarrow> P (cg\<lparr>depth := d\<rparr>)"
    and F: "\<And>cg l name. Lookup sc name = Inr (B_FUNC l) \<Longrightarrow> P cg \<Longrightarrow> P (EmitFixup l cg)"
  shows "LowerExpr sc e cg = Inr cg' \<Longrightarrow> P cg \<Longrightarrow> P cg'"
    and "LowerArgs sc es cg = Inr cg' \<Longrightarrow> P cg \<Longrightarrow> P cg'"
  using F
proof (induction sc e cg and sc es cg arbitrary: cg' and cg' rule: LowerExpr_LowerArgs.induct)
  case (1 scope name cg)
  show ?case
  proof (rule LowerRefExpr_invF [where P = P and sc = scope and name = name and cg = cg])
    show "LowerRefExpr scope name cg = Inr cg'" using "1.prems"(1) by simp
    show "P cg" by fact
    show "\<And>c l n. Lookup scope n = Inr (B_FUNC l) \<Longrightarrow> P c \<Longrightarrow> P (EmitFixup l c)"
      using "1.prems"(3) by blast
  qed (rule E D, assumption)+
next
  case (2 scope kind lhs rhs cg)
  from "2.prems"(1) obtain c1 c2 where
    a: "LowerExpr scope lhs cg = Inr c1" and b: "LowerExpr scope rhs c1 = Inr c2"
    and c: "EmitKind kind c2 = Inr cg'"
    by (auto simp: bind_err_eq_Inr)
  have "P c1" using "2.IH"(1) [OF a "2.prems"(2,3)] .
  then have "P c2" using "2.IH"(2) [OF a b _ "2.prems"(3)] by simp
  then show ?case using EmitKind_inv [where P = P, OF E D c] by simp
next
  case (3 scope callee args cg)
  from "3.prems"(1) obtain c1 c2 where
    a: "LowerArgs scope args cg = Inr c1" and b: "LowerExpr scope callee c1 = Inr c2"
    and c: "cg' = (EmitCall (length args) c2)\<lparr>depth := depth (EmitCall (length args) c2) - of_nat (length args)\<rparr>"
    by (auto simp: bind_err_eq_Inr Let_def)
  have "P c1" using "3.IH"(1) [OF a "3.prems"(2,3)] .
  then have "P c2" using "3.IH"(2) [OF a b _ "3.prems"(3)] by simp
  then show ?case unfolding c by (simp add: EmitCall_def Emit_Opcode_def E D)
next
  case (4 scope number cg)
  then show ?case
    by (auto simp: LowerIntExpr_def EmitInt_def Emit_Opcode_def Emit_u64_def E D)
next
  case (5 scope cg)
  then show ?case by simp
next
  case (6 scope arg args cg)
  from "6.prems"(1) obtain c1 where
    a: "LowerArgs scope args cg = Inr c1" and b: "LowerExpr scope arg c1 = Inr cg'"
    by (auto simp: bind_err_eq_Inr)
  have "P c1" using "6.IH"(1) [OF a "6.prems"(2,3)] .
  then show ?case using "6.IH"(2) [OF a b _ "6.prems"(3)] by simp
qed

lemma Lookup_FUNC_root:
  "Lookup sc name = Inr (B_FUNC l) \<Longrightarrow> root sc = GlobalScope fs ps \<Longrightarrow> fs name = Some l"
  by (induction sc) (auto split: option.splits)

lemma root_AddLocal [simp]: "root (AddLocal sc name d) = root sc"
  by (cases sc) auto

lemma LowerStmt_root:
  "LowerStmt sc s cg = Inr (sc', cg') \<Longrightarrow> root sc' = root sc"
  "LowerBlockStmt sc ss cg = Inr (sc', cg') \<Longrightarrow> sc' = sc"
  "LowerStmts sc ss cg = Inr (sc', cg') \<Longrightarrow> root sc' = root sc"
proof (induction sc s cg and sc ss cg and sc ss cg arbitrary: sc' cg' and sc' cg' and sc' cg'
    rule: LowerStmt_LowerBlockStmt_LowerStmts.induct)
  case (1 scope body cg)
  then show ?case by simp
next
  case (2 scope cond body cg)
  obtain entry c0 where m1: "MakeLabel cg = (entry, c0)" by (cases "MakeLabel cg")
  obtain exit c0' where m2: "MakeLabel c0 = (exit, c0')" by (cases "MakeLabel c0")
  from "2.prems"(1) m1 m2 obtain c1 c2 c3 c4 where
    s1: "EmitLabel entry c0' = Inr c1" and s2: "LowerExpr scope cond c1 = Inr c2"
    and s3: "EmitJumpFalse exit c2 = Inr c3" and s4: "LowerStmt scope body c3 = Inr (sc', c4)"
    by (auto simp: bind_err_eq_Inr)
  show ?case using "2.IH" [OF m1 [symmetric] refl m2 [symmetric] refl s1 s2 s3 s4] .
next
  case (3 scope cond body elseBranch cg)
  obtain entry c0 where m1: "MakeLabel cg = (entry, c0)" by (cases "MakeLabel cg")
  obtain elseLabel c0' where m2: "MakeLabel c0 = (elseLabel, c0')" by (cases "MakeLabel c0")
  obtain exit c0'' where m3: "MakeLabel c0' = (exit, c0'')" by (cases "MakeLabel c0'")
  from "3.prems"(1) m1 m2 m3 obtain c1 c2 c3 s4 c4 c5 c6 where
    s1: "EmitLabel entry c0'' = Inr c1" and s2: "LowerExpr scope cond c1 = Inr c2"
    and s3: "EmitJumpFalse elseLabel c2 = Inr c3" and s4: "LowerStmt scope body c3 = Inr (s4, c4)"
    and s5: "EmitLabel elseLabel (EmitJump exit c4) = Inr c5"
    and s6: "(case elseBranch of Some stmt \<Rightarrow> LowerStmt s4 stmt c5 | None \<Rightarrow> Inr (s4, c5)) = Inr (sc', c6)"
    by (auto simp: bind_err_eq_Inr)
  have r4: "root s4 = root scope"
    using "3.IH"(1) [OF m1 [symmetric] refl m2 [symmetric] refl m3 [symmetric] refl s1 s2 s3 s4] .
  show ?case
  proof (cases elseBranch)
    case None
    with s6 r4 show ?thesis by simp
  next
    case (Some stmt)
    with s6 have "LowerStmt s4 stmt c5 = Inr (sc', c6)" by simp
    then show ?thesis
      using "3.IH"(2) [OF m1 [symmetric] refl m2 [symmetric] refl m3 [symmetric] refl s1 s2 s3
          s4 refl s5 Some] r4
      by simp
  qed
next
  case (4 scope e cg)
  then show ?case by (auto simp: bind_err_eq_Inr)
next
  case (5 scope e cg)
  then show ?case by (auto simp: bind_err_eq_Inr)
next
  case (6 scope name type init cg)
  then show ?case by (auto simp: LowerLetStmt_def bind_err_eq_Inr)
next
  case (7 scope body cg)
  then show ?case by (auto simp: bind_err_eq_Inr Let_def split: if_splits)
next
  case (8 scope cg)
  then show ?case by simp
next
  case (9 scope stmt stmts cg)
  from "9.prems"(1) obtain s1 c1 where
    a: "LowerStmt scope stmt cg = Inr (s1, c1)" and b: "LowerStmts s1 stmts c1 = Inr (sc', cg')"
    by (auto simp: bind_err_eq_Inr)
  show ?case using "9.IH"(1) [OF a] "9.IH"(2) [OF a refl b] by simp
qed

subsection \<open>Pending labels\<close>

lemma pending_simps [simp]:
  "pending (Emit_bytes bs cg) = pending cg"
  "pending (cg\<lparr>depth := d\<rparr>) = pending cg"
  "pending (cg\<lparr>nextLabel := n\<rparr>) = pending cg"
  "pending (cg\<lparr>func := f\<rparr>) = pending cg"
  by (simp_all add: pending_def)

lemma pending_EmitFixup: "pending (EmitFixup l cg) \<subseteq> insert l (pending cg)"
  by (auto simp: pending_def sites_of_EmitFixup split: if_splits)

lemma pending_EmitFixup_bound:
  "labelToAddress cg l \<noteq> None \<Longrightarrow> pending (EmitFixup l cg) = pending cg"
  by (auto simp: pending_def sites_of_EmitFixup split: if_splits)

lemma pending_EmitLabel:
  assumes "EmitLabel l cg = Inr cg'"
  shows "pending cg' = pending cg - {l}"
proof -
  have "x \<in> pending cg' \<longleftrightarrow> x \<in> pending cg \<and> x \<noteq> l" for x
  proof (cases "x = l")
    case True
    then show ?thesis using bound_EmitLabel [OF assms] by (simp add: pending_def)
  next
    case False
    then show ?thesis
      using labelToAddress_EmitLabel [OF assms False] sites_of_EmitLabel [OF assms]
      by (simp add: pending_def)
  qed
  then show ?thesis by auto
qed

lemma LowerExpr_pending:
  assumes "LowerExpr sc e cg = Inr cg'" and "root sc = GlobalScope fs ps"
  shows "pending cg' \<subseteq> pending cg \<union> ran fs"
proof -
  let ?P = "\<lambda>c. pending c \<subseteq> pending cg \<union> ran fs"
  have "?P cg'"
  proof (rule LowerExpr_invF(1) [where P = ?P, OF _ _ _ assms(1)])
    fix c l name assume "Lookup sc name = Inr (B_FUNC l)" and p: "?P c"
    then have "l \<in> ran fs" using Lookup_FUNC_root [OF _ assms(2)] by (auto simp: ran_def)
    then show "?P (EmitFixup l c)" using p pending_EmitFixup [of l c] by auto
  qed simp_all
  then show ?thesis .
qed

lemma LowerExpr_bound:
  "LowerExpr sc e cg = Inr cg' \<Longrightarrow> labelToAddress cg x \<noteq> None \<Longrightarrow> labelToAddress cg' x \<noteq> None"
  by (rule LowerExpr_inv(1) [where P = "\<lambda>c. labelToAddress c x \<noteq> None"]) simp_all

lemma LowerStmt_bound:
  "LowerStmt sc s cg = Inr (sc', cg') \<Longrightarrow> labelToAddress cg x \<noteq> None \<Longrightarrow>
   labelToAddress cg' x \<noteq> None"
  by (rule LowerStmt_inv(1) [where P = "\<lambda>c. labelToAddress c x \<noteq> None"])
    (simp_all add: bound_EmitLabel_mono)

lemma LowerBlockStmt_bound:
  "LowerBlockStmt sc ss cg = Inr (sc', cg') \<Longrightarrow> labelToAddress cg x \<noteq> None \<Longrightarrow>
   labelToAddress cg' x \<noteq> None"
  by (rule LowerStmt_inv(2) [where P = "\<lambda>c. labelToAddress c x \<noteq> None"])
    (simp_all add: bound_EmitLabel_mono)

lemma EmitJumpFalse_bound:
  "EmitJumpFalse l cg = Inr cg' \<Longrightarrow> labelToAddress cg' = labelToAddress cg"
  by (auto simp: EmitJumpFalse_def Emit_Opcode_def split: if_splits)

lemma pending_EmitJumpFalse:
  "EmitJumpFalse l cg = Inr cg' \<Longrightarrow> pending cg' \<subseteq> insert l (pending cg)"
  using pending_EmitFixup [of l "Emit_Opcode JUMP_FALSE (cg\<lparr>depth := depth cg - 1\<rparr>)"]
  by (auto simp: EmitJumpFalse_def Emit_Opcode_def split: if_splits)

lemma pending_EmitJump: "pending (EmitJump l cg) \<subseteq> insert l (pending cg)"
  using pending_EmitFixup [of l "Emit_Opcode JUMP cg"] by (auto simp: EmitJump_def Emit_Opcode_def)

lemma pending_EmitJump_bound:
  "labelToAddress cg l \<noteq> None \<Longrightarrow> pending (EmitJump l cg) = pending cg"
  using pending_EmitFixup_bound [of "Emit_Opcode JUMP cg" l] by (simp add: EmitJump_def Emit_Opcode_def)

lemma pending_emit_drop1: "emit_drop1 op cg = Inr cg' \<Longrightarrow> pending cg' = pending cg"
  by (auto simp: emit_drop1_def Emit_Opcode_def split: if_splits)

lemma pending_EmitReturn: "EmitReturn cg = Inr cg' \<Longrightarrow> pending cg' = pending cg"
  by (auto simp: EmitReturn_def Emit_Opcode_def Emit_u32_def Let_def split: if_splits)

lemma pending_EmitPops: "EmitPops n cg = Inr cg' \<Longrightarrow> pending cg' = pending cg"
  by (rule EmitPops_inv [where P = "\<lambda>c. pending c = pending cg"]) simp_all

lemma pending_MakeLabel: "MakeLabel cg = (l, cg') \<Longrightarrow> pending cg' = pending cg"
  by (auto simp: MakeLabel_def)

lemma LowerStmt_pending:
  "LowerStmt sc s cg = Inr (sc', cg') \<Longrightarrow> root sc = GlobalScope fs ps \<Longrightarrow>
     pending cg' \<subseteq> pending cg \<union> ran fs"
  "LowerBlockStmt sc ss cg = Inr (sc', cg') \<Longrightarrow> root sc = GlobalScope fs ps \<Longrightarrow>
     pending cg' \<subseteq> pending cg \<union> ran fs"
  "LowerStmts sc ss cg = Inr (sc', cg') \<Longrightarrow> root sc = GlobalScope fs ps \<Longrightarrow>
     pending cg' \<subseteq> pending cg \<union> ran fs"
proof (induction sc s cg and sc ss cg and sc ss cg arbitrary: sc' cg' and sc' cg' and sc' cg'
    rule: LowerStmt_LowerBlockStmt_LowerStmts.induct)
  case (1 scope body cg)
  then show ?case by simp
next
  case (2 scope cond body cg)
  obtain entry c0 where m1: "MakeLabel cg = (entry, c0)" by (cases "MakeLabel cg")
  obtain exit c0' where m2: "MakeLabel c0 = (exit, c0')" by (cases "MakeLabel c0")
  from "2.prems"(1) m1 m2 obtain c1 c2 c3 s4 c4 where
    s1: "EmitLabel entry c0' = Inr c1" and s2: "LowerExpr scope cond c1 = Inr c2"
    and s3: "EmitJumpFalse exit c2 = Inr c3" and s4: "LowerStmt scope body c3 = Inr (s4, c4)"
    and s5: "EmitLabel exit (EmitJump entry c4) = Inr cg'"
    by (auto simp: bind_err_eq_Inr)
  have p0: "pending c0' = pending cg" using m1 m2 by (simp add: pending_MakeLabel)
  have p1: "pending c1 = pending cg - {entry}" using pending_EmitLabel [OF s1] p0 by simp
  have b1: "labelToAddress c1 entry \<noteq> None" using bound_EmitLabel [OF s1] .
  have p2: "pending c2 \<subseteq> pending c1 \<union> ran fs" using LowerExpr_pending [OF s2 "2.prems"(2)] .
  have b2: "labelToAddress c2 entry \<noteq> None" using LowerExpr_bound [OF s2 b1] .
  have p3: "pending c3 \<subseteq> insert exit (pending c2)" using pending_EmitJumpFalse [OF s3] .
  have b3: "labelToAddress c3 entry \<noteq> None" using b2 EmitJumpFalse_bound [OF s3] by simp
  have p4: "pending c4 \<subseteq> pending c3 \<union> ran fs"
    using "2.IH" [OF m1 [symmetric] refl m2 [symmetric] refl s1 s2 s3 s4 "2.prems"(2)] .
  have b4: "labelToAddress c4 entry \<noteq> None" using LowerStmt_bound [OF s4 b3] .
  have p5: "pending (EmitJump entry c4) = pending c4" using pending_EmitJump_bound [OF b4] .
  from p1 p2 have q2: "pending c2 \<subseteq> pending cg \<union> ran fs" by auto
  from q2 p3 have q3: "pending c3 \<subseteq> insert exit (pending cg \<union> ran fs)" by auto
  from q3 p4 have q4: "pending c4 \<subseteq> insert exit (pending cg \<union> ran fs)" by auto
  have "pending cg' = pending c4 - {exit}" using pending_EmitLabel [OF s5] p5 by simp
  then show ?case using q4 by auto
next
  case (3 scope cond body elseBranch cg)
  obtain entry c0 where m1: "MakeLabel cg = (entry, c0)" by (cases "MakeLabel cg")
  obtain elseLabel c0' where m2: "MakeLabel c0 = (elseLabel, c0')" by (cases "MakeLabel c0")
  obtain exit c0'' where m3: "MakeLabel c0' = (exit, c0'')" by (cases "MakeLabel c0'")
  from "3.prems"(1) m1 m2 m3 obtain c1 c2 c3 s4 c4 c5 s6 c6 where
    s1: "EmitLabel entry c0'' = Inr c1" and s2: "LowerExpr scope cond c1 = Inr c2"
    and s3: "EmitJumpFalse elseLabel c2 = Inr c3" and s4: "LowerStmt scope body c3 = Inr (s4, c4)"
    and s5: "EmitLabel elseLabel (EmitJump exit c4) = Inr c5"
    and s6: "(case elseBranch of Some stmt \<Rightarrow> LowerStmt s4 stmt c5 | None \<Rightarrow> Inr (s4, c5)) = Inr (s6, c6)"
    and s7: "EmitLabel exit c6 = Inr cg'"
    by (auto simp: bind_err_eq_Inr)
  have p0: "pending c0'' = pending cg" using m1 m2 m3 by (simp add: pending_MakeLabel)
  have p1: "pending c1 \<subseteq> pending cg" using pending_EmitLabel [OF s1] p0 by auto
  have p2: "pending c2 \<subseteq> pending c1 \<union> ran fs" using LowerExpr_pending [OF s2 "3.prems"(2)] .
  have p3: "pending c3 \<subseteq> insert elseLabel (pending c2)" using pending_EmitJumpFalse [OF s3] .
  have p4: "pending c4 \<subseteq> pending c3 \<union> ran fs"
    using "3.IH"(1) [OF m1 [symmetric] refl m2 [symmetric] refl m3 [symmetric] refl s1 s2 s3 s4
        "3.prems"(2)] .
  have r4: "root s4 = GlobalScope fs ps" using LowerStmt_root(1) [OF s4] "3.prems"(2) by simp
  have p5: "pending c5 = pending (EmitJump exit c4) - {elseLabel}" using pending_EmitLabel [OF s5] .
  have p5': "pending (EmitJump exit c4) \<subseteq> insert exit (pending c4)" by (rule pending_EmitJump)
  have p6: "pending c6 \<subseteq> pending c5 \<union> ran fs"
  proof (cases elseBranch)
    case None
    with s6 show ?thesis by auto
  next
    case (Some stmt)
    with s6 have "LowerStmt s4 stmt c5 = Inr (s6, c6)" by simp
    then show ?thesis
      using "3.IH"(2) [OF m1 [symmetric] refl m2 [symmetric] refl m3 [symmetric] refl s1 s2 s3
          s4 refl s5 Some _ r4]
      by simp
  qed
  from p1 p2 have q2: "pending c2 \<subseteq> pending cg \<union> ran fs" by auto
  from q2 p3 have q3: "pending c3 \<subseteq> insert elseLabel (pending cg \<union> ran fs)" by auto
  from q3 p4 have q4: "pending c4 \<subseteq> insert elseLabel (pending cg \<union> ran fs)" by auto
  from q4 p5 p5' have q5: "pending c5 \<subseteq> insert exit (pending cg \<union> ran fs)" by auto
  from q5 p6 have q6: "pending c6 \<subseteq> insert exit (pending cg \<union> ran fs)" by auto
  have "pending cg' = pending c6 - {exit}" using pending_EmitLabel [OF s7] .
  then show ?case using q6 by auto
next
  case (4 scope e cg)
  then show ?case
    using LowerExpr_pending pending_emit_drop1
    by (fastforce simp: LowerExprStmt_def EmitPop_def bind_err_eq_Inr)
next
  case (5 scope e cg)
  then show ?case
    using LowerExpr_pending pending_EmitReturn
    by (fastforce simp: LowerReturnStmt_def bind_err_eq_Inr)
next
  case (6 scope name type init cg)
  then show ?case
    using LowerExpr_pending
    by (fastforce simp: LowerLetStmt_def bind_err_eq_Inr split: option.splits)
next
  case (7 scope body cg)
  from "7.prems"(1) obtain bs c1 c2 where
    s1: "LowerStmts (BlockScope scope []) body cg = Inr (bs, c1)"
    and s2: "EmitPops (NumberOfLocals bs) c1 = Inr c2" and s3: "cg' = c2"
    by (auto simp: bind_err_eq_Inr Let_def split: if_splits)
  have "pending c1 \<subseteq> pending cg \<union> ran fs"
    using "7.IH" [OF refl s1] "7.prems"(2) by simp
  then show ?case using pending_EmitPops [OF s2] s3 by simp
next
  case (8 scope cg)
  then show ?case by simp
next
  case (9 scope stmt stmts cg)
  from "9.prems"(1) obtain s1 c1 where
    a: "LowerStmt scope stmt cg = Inr (s1, c1)" and b: "LowerStmts s1 stmts c1 = Inr (sc', cg')"
    by (auto simp: bind_err_eq_Inr)
  have r: "root s1 = GlobalScope fs ps" using LowerStmt_root(1) [OF a] "9.prems"(2) by simp
  show ?case using "9.IH"(1) [OF a "9.prems"(2)] "9.IH"(2) [OF a refl b r] by auto
qed

subsection \<open>Functions and the module\<close>

lemma LowerFuncDecl_inv:
  assumes E: "\<And>cg bs. P cg \<Longrightarrow> P (Emit_bytes bs cg)"
    and D: "\<And>cg d. P cg \<Longrightarrow> P (cg\<lparr>depth := d\<rparr>)"
    and F: "\<And>cg l. P cg \<Longrightarrow> P (EmitFixup l cg)"
    and L: "\<And>cg l cg'. P cg \<Longrightarrow> EmitLabel l cg = Inr cg' \<Longrightarrow> P cg'"
    and N: "\<And>cg n. P cg \<Longrightarrow> P (cg\<lparr>nextLabel := n\<rparr>)"
    and U: "\<And>cg f. P cg \<Longrightarrow> P (cg\<lparr>func := f\<rparr>)"
  shows "LowerFuncDecl sc decl cg = Inr cg' \<Longrightarrow> P cg \<Longrightarrow> P cg'"
proof -
  assume a: "LowerFuncDecl sc decl cg = Inr cg'" and p: "P cg"
  then obtain entry c1 s2 c2 where
    s0: "funcs cg (func_name decl) = Some entry" and s1: "EmitLabel entry cg = Inr c1"
    and s2: "LowerBlockStmt (FuncScope sc (arg_map (func_args decl) [])) (func_body decl)
        (c1\<lparr>func := Some decl\<rparr>) = Inr (s2, c2)"
    and s3: "cg' = c2\<lparr>func := None\<rparr>"
    by (auto simp: LowerFuncDecl_def bind_err_eq_Inr Let_def split: option.splits if_splits)
  have "P c1" using L p s1 by blast
  then have "P (c1\<lparr>func := Some decl\<rparr>)" by (rule U)
  then have "P c2" using LowerStmt_inv(2) [where P = P, OF E D F L N s2] by simp
  then show "P cg'" unfolding s3 by (rule U)
qed

lemma LowerFuncs_inv:
  assumes E: "\<And>cg bs. P cg \<Longrightarrow> P (Emit_bytes bs cg)"
    and D: "\<And>cg d. P cg \<Longrightarrow> P (cg\<lparr>depth := d\<rparr>)"
    and F: "\<And>cg l. P cg \<Longrightarrow> P (EmitFixup l cg)"
    and L: "\<And>cg l cg'. P cg \<Longrightarrow> EmitLabel l cg = Inr cg' \<Longrightarrow> P cg'"
    and N: "\<And>cg n. P cg \<Longrightarrow> P (cg\<lparr>nextLabel := n\<rparr>)"
    and U: "\<And>cg f. P cg \<Longrightarrow> P (cg\<lparr>func := f\<rparr>)"
  shows "LowerFuncs sc m cg = Inr cg' \<Longrightarrow> P cg \<Longrightarrow> P cg'"
proof (induction sc m cg rule: LowerFuncs.induct)
  case (2 global decl items cg)
  from "2.prems"(1) obtain c1 where
    a: "LowerFuncDecl global decl cg = Inr c1" and b: "LowerFuncs global items c1 = Inr cg'"
    by (auto simp: bind_err_eq_Inr)
  have "P c1" using LowerFuncDecl_inv [where P = P, OF E D F L N U a] "2.prems"(2) by simp
  then show ?case using "2.IH" [OF a b] by simp
qed simp_all

lemma LowerTopLevel_inv:
  assumes E: "\<And>cg bs. P cg \<Longrightarrow> P (Emit_bytes bs cg)"
    and D: "\<And>cg d. P cg \<Longrightarrow> P (cg\<lparr>depth := d\<rparr>)"
    and F: "\<And>cg l. P cg \<Longrightarrow> P (EmitFixup l cg)"
    and L: "\<And>cg l cg'. P cg \<Longrightarrow> EmitLabel l cg = Inr cg' \<Longrightarrow> P cg'"
    and N: "\<And>cg n. P cg \<Longrightarrow> P (cg\<lparr>nextLabel := n\<rparr>)"
  shows "LowerTopLevel sc m cg = Inr (sc', cg') \<Longrightarrow> P cg \<Longrightarrow> P cg'"
proof (induction sc m cg rule: LowerTopLevel.induct)
  case (2 global stmt items cg)
  from "2.prems"(1) obtain g1 c1 where
    a: "LowerStmt global stmt cg = Inr (g1, c1)" and b: "LowerTopLevel g1 items c1 = Inr (sc', cg')"
    by (auto simp: bind_err_eq_Inr)
  have "P c1" using LowerStmt_inv(1) [where P = P, OF E D F L N a] "2.prems"(2) by simp
  then show ?case using "2.IH" [OF a refl b] by simp
qed simp_all

lemma LowerTopLevel_pending:
  "LowerTopLevel sc m cg = Inr (sc', cg') \<Longrightarrow> root sc = GlobalScope fs ps \<Longrightarrow>
   pending cg' \<subseteq> pending cg \<union> ran fs \<and> root sc' = GlobalScope fs ps"
proof (induction sc m cg rule: LowerTopLevel.induct)
  case (2 global stmt items cg)
  from "2.prems"(1) obtain g1 c1 where
    a: "LowerStmt global stmt cg = Inr (g1, c1)" and b: "LowerTopLevel g1 items c1 = Inr (sc', cg')"
    by (auto simp: bind_err_eq_Inr)
  have r: "root g1 = GlobalScope fs ps" using LowerStmt_root(1) [OF a] "2.prems"(2) by simp
  have "pending c1 \<subseteq> pending cg \<union> ran fs" using LowerStmt_pending(1) [OF a "2.prems"(2)] .
  then show ?case using "2.IH" [OF a refl b r] by auto
qed simp_all

lemma LowerFuncDecl_pending:
  assumes "LowerFuncDecl sc decl cg = Inr cg'" and "root sc = GlobalScope fs ps"
  shows "pending cg' \<subseteq> pending cg \<union> ran fs"
    and "\<exists>l. funcs cg (func_name decl) = Some l \<and> labelToAddress cg' l \<noteq> None"
proof -
  from assms(1) obtain entry c1 s2 c2 where
    s0: "funcs cg (func_name decl) = Some entry" and s1: "EmitLabel entry cg = Inr c1"
    and s2: "LowerBlockStmt (FuncScope sc (arg_map (func_args decl) [])) (func_body decl)
        (c1\<lparr>func := Some decl\<rparr>) = Inr (s2, c2)"
    and s3: "cg' = c2\<lparr>func := None\<rparr>"
    by (auto simp: LowerFuncDecl_def bind_err_eq_Inr Let_def split: option.splits if_splits)
  have p1: "pending c1 \<subseteq> pending cg" using pending_EmitLabel [OF s1] by auto
  have "pending c2 \<subseteq> pending (c1\<lparr>func := Some decl\<rparr>) \<union> ran fs"
    using LowerStmt_pending(2) [OF s2] assms(2) by simp
  then show "pending cg' \<subseteq> pending cg \<union> ran fs" using p1 s3 by auto
  have "labelToAddress (c1\<lparr>func := Some decl\<rparr>) entry \<noteq> None"
    using bound_EmitLabel [OF s1] by simp
  then have "labelToAddress c2 entry \<noteq> None" by (rule LowerBlockStmt_bound [OF s2])
  then show "\<exists>l. funcs cg (func_name decl) = Some l \<and> labelToAddress cg' l \<noteq> None"
    using s0 s3 by simp
qed

lemma LowerFuncDecl_funcs: "LowerFuncDecl sc decl cg = Inr cg' \<Longrightarrow> funcs cg' = funcs cg"
  by (rule LowerFuncDecl_inv [where P = "\<lambda>c. funcs c = funcs cg"])
    (simp_all add: frame_EmitLabel)

lemma LowerFuncs_bound:
  "LowerFuncs sc m cg = Inr cg' \<Longrightarrow> labelToAddress cg x \<noteq> None \<Longrightarrow> labelToAddress cg' x \<noteq> None"
  by (rule LowerFuncs_inv [where P = "\<lambda>c. labelToAddress c x \<noteq> None"])
    (simp_all add: bound_EmitLabel_mono)

lemma LowerFuncs_pending:
  "LowerFuncs sc m cg = Inr cg' \<Longrightarrow> root sc = GlobalScope fs ps \<Longrightarrow>
   pending cg' \<subseteq> pending cg \<union> ran fs \<and>
   (\<forall>decl. T_Func decl \<in> set m \<longrightarrow>
      (\<exists>l. funcs cg (func_name decl) = Some l \<and> labelToAddress cg' l \<noteq> None))"
proof (induction sc m cg rule: LowerFuncs.induct)
  case (2 global decl items cg)
  from "2.prems"(1) obtain c1 where
    a: "LowerFuncDecl global decl cg = Inr c1" and b: "LowerFuncs global items c1 = Inr cg'"
    by (auto simp: bind_err_eq_Inr)
  note d = LowerFuncDecl_pending [OF a "2.prems"(2)]
  note f = LowerFuncDecl_funcs [OF a]
  note ih = "2.IH" [OF a b "2.prems"(2)]
  from d(2) obtain l where l: "funcs cg (func_name decl) = Some l" "labelToAddress c1 l \<noteq> None"
    by blast
  have "labelToAddress cg' l \<noteq> None" using LowerFuncs_bound [OF b l(2)] .
  with l(1) have h: "\<exists>l. funcs cg (func_name decl) = Some l \<and> labelToAddress cg' l \<noteq> None"
    by blast
  have "pending cg' \<subseteq> pending cg \<union> ran fs" using ih d(1) by auto
  moreover have "\<forall>decl'. T_Func decl' \<in> set (T_Func decl # items) \<longrightarrow>
      (\<exists>l. funcs cg (func_name decl') = Some l \<and> labelToAddress cg' l \<noteq> None)"
    using ih h f by auto
  ultimately show ?case by simp
qed simp_all

subsection \<open>The declarations\<close>

lemma Declare_facts:
  "Declare k m protos cg = Inr (protos', cg') \<Longrightarrow>
   code cg' = code cg \<and> fixups cg' = fixups cg \<and> labelToAddress cg' = labelToAddress cg \<and>
   depth cg' = depth cg \<and> func cg' = func cg \<and>
   dom (funcs cg') = dom (funcs cg) \<union> {func_name d |d. T_Func d \<in> set m} \<and>
   dom protos' = dom protos \<union> {proto_name p |p. T_Proto p \<in> set m}"
proof (induction k m protos cg rule: Declare.induct)
  case (1 kRuntimeFns protos cg)
  then show ?case by simp
next
  case (2 kRuntimeFns proto items protos cg)
  then show ?case by (auto split: option.splits)
next
  case (3 kRuntimeFns decl items protos cg)
  then show ?case by (auto simp: MakeLabel_def Let_def split: option.splits)
next
  case (4 kRuntimeFns stmt items protos cg)
  then show ?case by simp
qed

lemma Declare_fresh:
  "Declare k m protos cg = Inr (protos', cg') \<Longrightarrow> labels_fresh cg \<Longrightarrow> labels_fresh cg'"
proof (induction k m protos cg rule: Declare.induct)
  case (1 kRuntimeFns protos cg)
  then show ?case by simp
next
  case (2 kRuntimeFns proto items protos cg)
  then show ?case by (auto split: option.splits)
next
  case (3 kRuntimeFns decl items protos cg)
  let ?c = "cg\<lparr>nextLabel := nextLabel cg + 1\<rparr>"
  have m: "MakeLabel cg = (nextLabel cg + 1, ?c)" by (simp add: MakeLabel_def)
  show ?case
  proof (cases "funcs cg (func_name decl)")
    case None
    have "labels_fresh (?c\<lparr>funcs := (funcs ?c)(func_name decl \<mapsto> nextLabel cg + 1)\<rparr>)"
      using "3.prems"(2) None by (fastforce simp: labels_fresh_def)
    then show ?thesis
      using "3.IH" [OF m [symmetric] refl] "3.prems"(1) None
      by (simp add: MakeLabel_def)
  next
    case (Some old)
    have "labels_fresh ?c" using "3.prems"(2) by (fastforce simp: labels_fresh_def)
    then show ?thesis
      using "3.IH" [OF m [symmetric] refl] "3.prems"(1) Some
      by (simp add: MakeLabel_def)
  qed
next
  case (4 kRuntimeFns stmt items protos cg)
  then show ?case by simp
qed

lemma init_facts:
  "sites_of init_Codegen l = []" "labelToAddress init_Codegen = Map.empty"
  "funcs init_Codegen = Map.empty" "code init_Codegen = []" "labels_fresh init_Codegen"
  by (simp_all add: init_Codegen_def sites_of_def labels_fresh_def)


subsection \<open>The bytes of a list of items\<close>

lemma size_of_simps [simp]:
  "size_of [] = 0" "size_of (x # xs) = asm_size x + size_of xs"
  "size_of (xs @ ys) = size_of xs + size_of ys"
  by (simp_all add: size_of_def)

lemma labels_of_simps [simp]:
  "labels_of [] = {}" "labels_of (A_label l # xs) = insert l (labels_of xs)"
  "labels_of (A_ref l # xs) = labels_of xs" "labels_of (A_bytes bs # xs) = labels_of xs"
  "labels_of (xs @ ys) = labels_of xs \<union> labels_of ys"
  by (auto simp: labels_of_def)

lemma first_label_append:
  "first_label l pos (xs @ ys) =
     (case first_label l pos xs of Some a \<Rightarrow> Some a | None \<Rightarrow> first_label l (pos + size_of xs) ys)"
  by (induction xs arbitrary: pos) (auto simp: add.assoc split: option.splits)

lemma last_label_append:
  "last_label l pos (xs @ ys) =
     (case last_label l (pos + size_of xs) ys of Some a \<Rightarrow> Some a | None \<Rightarrow> last_label l pos xs)"
  by (induction xs arbitrary: pos) (auto simp: add.assoc split: option.splits)

lemma first_label_None: "first_label l pos xs = None \<longleftrightarrow> l \<notin> labels_of xs"
  by (induction xs arbitrary: pos) (auto simp: labels_of_def)

lemma last_label_None: "last_label l pos xs = None \<longleftrightarrow> l \<notin> labels_of xs"
proof (induction xs arbitrary: pos)
  case Nil
  then show ?case by simp
next
  case (Cons x xs)
  show ?case using Cons.IH [of "pos + asm_size x"]
    by (cases "last_label l (pos + asm_size x) xs") (auto simp: labels_of_def)
qed

lemma fsites_append:
  "fsites l pos (xs @ ys) =
     (if l \<in> labels_of xs then fsites l pos xs
      else fsites l pos xs @ fsites l (pos + size_of xs) ys)"
  by (induction xs arbitrary: pos) (auto simp: add.assoc labels_of_def)

lemma render_append:
  "render bw fw seen (xs @ ys) = render bw fw seen xs @ render bw fw (seen \<union> labels_of xs) ys"
proof (induction xs arbitrary: seen)
  case Nil
  then show ?case by simp
next
  case (Cons x xs)
  then show ?case by (cases x) (simp_all add: Un_commute insert_commute Un_insert_left)
qed

lemma length_render:
  "(\<And>l. length (bw l) = 8) \<Longrightarrow> (\<And>l. length (fw l) = 8) \<Longrightarrow>
   length (render bw fw seen xs) = size_of xs"
proof (induction xs arbitrary: seen)
  case Nil
  then show ?case by simp
next
  case (Cons x xs)
  then show ?case by (cases x) simp_all
qed

text \<open>The stream depends on the backward values of the labels seen or defined, and on the
  forward values of the labels not seen at the start.\<close>

lemma render_cong:
  "(\<And>l. l \<in> seen \<union> labels_of xs \<Longrightarrow> bw l = bw' l) \<Longrightarrow>
   (\<And>l. l \<notin> seen \<Longrightarrow> fw l = fw' l) \<Longrightarrow>
   render bw fw seen xs = render bw' fw' seen xs"
proof (induction xs arbitrary: seen)
  case Nil
  then show ?case by simp
next
  case (Cons x xs)
  show ?case
  proof (cases x)
    case (A_bytes bs)
    then show ?thesis using Cons.IH [of seen] Cons.prems by simp
  next
    case (A_ref l)
    then show ?thesis using Cons.IH [of seen] Cons.prems by simp
  next
    case (A_label l)
    have "render bw fw (insert l seen) xs = render bw' fw' (insert l seen) xs"
      using Cons.prems A_label by (intro Cons.IH) auto
    then show ?thesis using A_label by simp
  qed
qed

subsection \<open>Patching the fixup sites of a label\<close>

lemma memcpy_at_middle:
  "length w = 8 \<Longrightarrow> length n4 = 4 \<Longrightarrow>
   memcpy_at (pre @ w @ rest) (length pre) n4 = Inr (pre @ (n4 @ drop 4 w) @ rest)"
  by (simp add: memcpy_at_def)

lemma patch_render:
  assumes bw: "\<And>l. length (bw l) = 8" and fw: "\<And>l. length (fw l) = 8"
  shows "l0 \<notin> seen \<Longrightarrow>
    patch_sites a (pre @ render bw fw seen xs) (fsites l0 (length pre) xs) =
      Inr (pre @ render bw (fw(l0 := take 4 (bytes_u64 a) @ drop 4 (fw l0))) seen xs)"
proof (induction xs arbitrary: pre seen)
  case Nil
  then show ?case by simp
next
  case (Cons x xs)
  let ?fw = "fw(l0 := take 4 (bytes_u64 a) @ drop 4 (fw l0))"
  show ?case
  proof (cases x)
    case (A_bytes bs)
    then show ?thesis using Cons.IH [of seen "pre @ bs"] Cons.prems by simp
  next
    case (A_ref l)
    show ?thesis
    proof (cases "l = l0")
      case True
      have m: "memcpy_at (pre @ fw l0 @ render bw fw seen xs) (length pre) (take 4 (bytes_u64 a))
          = Inr (pre @ (take 4 (bytes_u64 a) @ drop 4 (fw l0)) @ render bw fw seen xs)"
        by (rule memcpy_at_middle) (simp_all add: fw)
      have "patch_sites a ((pre @ ?fw l0) @ render bw fw seen xs) (fsites l0 (length (pre @ ?fw l0)) xs)
          = Inr ((pre @ ?fw l0) @ render bw ?fw seen xs)"
        by (rule Cons.IH [OF Cons.prems])
      then show ?thesis using A_ref True Cons.prems m by (simp add: fw fun_upd_def)
    next
      case False
      let ?w = "if l \<in> seen then bw l else fw l"
      have "patch_sites a ((pre @ ?w) @ render bw fw seen xs) (fsites l0 (length (pre @ ?w)) xs)
          = Inr ((pre @ ?w) @ render bw ?fw seen xs)"
        by (rule Cons.IH [OF Cons.prems])
      then show ?thesis using A_ref False Cons.prems by (cases "l \<in> seen") (simp_all add: fw bw fun_upd_def)
    qed
  next
    case (A_label l)
    show ?thesis
    proof (cases "l = l0")
      case True
      have "render bw fw (insert l0 seen) xs = render bw ?fw (insert l0 seen) xs"
        by (rule render_cong) auto
      then show ?thesis using A_label True by (simp add: fun_upd_def)
    next
      case False
      then have "l0 \<notin> insert l seen" using Cons.prems by simp
      from Cons.IH [OF this, of pre] show ?thesis using A_label False by (simp add: fun_upd_def)
    qed
  qed
qed

subsection \<open>The raw emitters append items\<close>

lemma length_backward_ref [simp]: "length (backward_ref tr l) = 8"
  by (simp add: backward_ref_def split: option.splits)

lemma length_forward_ref [simp]: "length (forward_ref tr l) = 8"
  by (simp add: forward_ref_def split: option.splits)

lemma length_assemble [simp]: "length (assemble tr) = size_of tr"
  by (simp add: assemble_def length_render)

lemma case_option_id [simp]: "(case x of None \<Rightarrow> None | Some a \<Rightarrow> Some a) = x"
  by (cases x) simp_all

lemma first_label_snoc [simp]:
  "first_label l 0 (tr @ [A_bytes bs]) = first_label l 0 tr"
  "first_label l 0 (tr @ [A_ref r]) = first_label l 0 tr"
  "first_label l 0 (tr @ [A_label r]) =
     (case first_label l 0 tr of Some a \<Rightarrow> Some a | None \<Rightarrow> if r = l then Some (size_of tr) else None)"
  by (auto simp: first_label_append split: option.splits)

lemma last_label_snoc [simp]:
  "last_label l 0 (tr @ [A_bytes bs]) = last_label l 0 tr"
  "last_label l 0 (tr @ [A_ref r]) = last_label l 0 tr"
  "last_label l 0 (tr @ [A_label r]) = (if r = l then Some (size_of tr) else last_label l 0 tr)"
  by (auto simp: last_label_append split: option.splits)

lemma fsites_snoc [simp]:
  "fsites l 0 (tr @ [A_bytes bs]) = fsites l 0 tr"
  "fsites l 0 (tr @ [A_label r]) = fsites l 0 tr"
  "fsites l 0 (tr @ [A_ref r]) =
     (if r = l \<and> l \<notin> labels_of tr then fsites l 0 tr @ [size_of tr] else fsites l 0 tr)"
  by (auto simp: fsites_append)

lemma refs_snoc_bytes [simp]:
  "backward_ref (tr @ [A_bytes bs]) = backward_ref tr" "forward_ref (tr @ [A_bytes bs]) = forward_ref tr"
  by (auto simp: backward_ref_def forward_ref_def fun_eq_iff)

lemma refs_snoc_ref [simp]:
  "backward_ref (tr @ [A_ref l]) = backward_ref tr" "forward_ref (tr @ [A_ref l]) = forward_ref tr"
  by (auto simp: backward_ref_def forward_ref_def fun_eq_iff)

lemma emitted_fields [simp]:
  "emitted tr (cg\<lparr>depth := d\<rparr>) = emitted tr cg"
  "emitted tr (cg\<lparr>nextLabel := n\<rparr>) = emitted tr cg"
  "emitted tr (cg\<lparr>func := f\<rparr>) = emitted tr cg"
  "emitted tr (cg\<lparr>funcs := fs\<rparr>) = emitted tr cg"
  by (simp_all add: emitted_def)

lemma emitted_bytes: "emitted tr cg \<Longrightarrow> emitted (tr @ [A_bytes bs]) (Emit_bytes bs cg)"
  by (simp add: emitted_def assemble_def render_append)

lemma emitted_ref:
  assumes "emitted tr cg"
  shows "emitted (tr @ [A_ref l]) (EmitFixup l cg)"
proof -
  have b: "labelToAddress cg l = None \<longleftrightarrow> l \<notin> labels_of tr"
    using assms by (simp add: emitted_def first_label_None)
  have "code (EmitFixup l cg) = code cg @ (if l \<in> labels_of tr then backward_ref tr l else forward_ref tr l)"
  proof (cases "labelToAddress cg l")
    case None
    then have "forward_ref tr l = bytes_u64 0"
      using b by (simp add: forward_ref_def last_label_None [THEN iffD2])
    then show ?thesis using None b by (simp add: EmitFixup_def Emit_u64_def)
  next
    case (Some a)
    then obtain p where "first_label l 0 tr = Some p" "a = of_nat p"
      using assms by (auto simp: emitted_def)
    then have "backward_ref tr l = bytes_u64 a" by (simp add: backward_ref_def)
    then show ?thesis using Some b by (simp add: EmitFixup_def Emit_u64_def)
  qed
  then have 1: "code (EmitFixup l cg) = assemble (tr @ [A_ref l])"
    using assms by (simp add: emitted_def assemble_def render_append)
  have 2: "labelToAddress (EmitFixup l cg) x = map_option of_nat (first_label x 0 (tr @ [A_ref l]))" for x
    using assms by (simp add: emitted_def)
  have 3: "sites_of (EmitFixup l cg) x = fsites x 0 (tr @ [A_ref l])" for x
    using assms b by (auto simp: emitted_def sites_of_EmitFixup)
  show ?thesis using 1 2 3 by (simp add: emitted_def)
qed

lemma drop_4_forward_ref: "drop 4 (forward_ref tr l) = [0, 0, 0, 0]"
proof (cases "last_label l 0 tr")
  case None
  then show ?thesis by (simp add: forward_ref_def bytes_u64_def le_bytes_8 le_bytes_4)
next
  case (Some a)
  then have "forward_ref tr l = le_bytes 4 a @ [0, 0, 0, 0]"
    unfolding forward_ref_def by (simp only: option.case bytes_u64_low)
  then show ?thesis by simp
qed

lemma take_4_bytes_u64_of_nat: "take 4 (bytes_u64 (of_nat n)) = le_bytes 4 n"
proof -
  have "le_bytes 4 (unat (of_nat n :: u64) mod 256 ^ 4) = le_bytes 4 (unat (of_nat n :: u64))"
    by (rule le_bytes_mod)
  moreover have "unat (of_nat n :: u64) mod 256 ^ 4 = n mod 256 ^ 4"
    by (simp add: unat_of_nat take_bit_eq_mod mod_mod_cancel)
  moreover have "le_bytes 4 (n mod 256 ^ 4) = le_bytes 4 n" by (rule le_bytes_mod)
  ultimately show ?thesis by (simp add: take_4_bytes_u64)
qed

lemma emitted_label:
  assumes e: "emitted tr cg" and l: "EmitLabel l cg = Inr cg'"
  shows "emitted (tr @ [A_label l]) cg'"
proof -
  let ?a = "of_nat (length (code cg)) :: u64"
  let ?tr = "tr @ [A_label l]"
  let ?fw = "(forward_ref tr)(l := take 4 (bytes_u64 ?a) @ drop 4 (forward_ref tr l))"
  from l obtain c' where
    p: "patch_sites ?a (code cg) (sites_of cg l) = Inr c'"
    and c: "cg' = cg\<lparr>code := c', fixups := (fixups cg)(l \<mapsto> sites_of cg l),
            labelToAddress := (case labelToAddress cg l of
                     Some a \<Rightarrow> labelToAddress cg
                   | None \<Rightarrow> (labelToAddress cg)(l \<mapsto> ?a))\<rparr>"
    by (rule EmitLabel_cases)
  have len: "length (code cg) = size_of tr" using e by (simp add: emitted_def)
  have "patch_sites ?a ([] @ render (backward_ref tr) (forward_ref tr) {} tr) (fsites l (length ([] :: byte list)) tr)
      = Inr ([] @ render (backward_ref tr) ?fw {} tr)"
    by (rule patch_render) simp_all
  then have c': "c' = render (backward_ref tr) ?fw {} tr"
    using p e by (simp add: emitted_def assemble_def)
  have "forward_ref ?tr l = bytes_u64 (of_nat (size_of tr mod 2 ^ 32))"
    unfolding forward_ref_def by (simp only: last_label_snoc refl if_True option.case)
  then have fwl: "forward_ref ?tr l = ?fw l"
    by (simp only: bytes_u64_low len take_4_bytes_u64_of_nat drop_4_forward_ref fun_upd_same)
  have "render (backward_ref ?tr) (forward_ref ?tr) {} tr = render (backward_ref tr) ?fw {} tr"
  proof (rule render_cong)
    fix x assume "x \<in> {} \<union> labels_of tr"
    then obtain p where "first_label x 0 tr = Some p" using first_label_None [of x 0 tr] by auto
    then show "backward_ref ?tr x = backward_ref tr x"
      by (simp add: backward_ref_def)
  next
    fix x :: Label
    show "forward_ref ?tr x = ?fw x"
    proof (cases "x = l")
      case True
      then show ?thesis using fwl by simp
    next
      case False
      then show ?thesis by (simp add: forward_ref_def)
    qed
  qed
  then have 1: "code cg' = assemble ?tr"
    using c c' by (simp add: assemble_def render_append)
  have 2: "labelToAddress cg' x = map_option of_nat (first_label x 0 ?tr)" for x
    using e c len by (auto simp: emitted_def split: option.splits)
  have 3: "sites_of cg' x = fsites x 0 ?tr" for x
    using e sites_of_EmitLabel [OF l, of x] by (simp add: emitted_def)
  show ?thesis using 1 2 3 by (simp add: emitted_def)
qed

lemma emitted_init: "emitted [] init_Codegen"
  by (simp add: emitted_def assemble_def init_Codegen_def sites_of_def)

subsection \<open>The lowering emits the items of the spec\<close>

lemma emitted_ins: "emitted tr cg \<Longrightarrow> emitted (tr @ [ins op]) (Emit_Opcode op cg)"
  by (simp add: ins_def Emit_Opcode_def emitted_bytes)

lemma emitted_u32: "emitted tr cg \<Longrightarrow> emitted (tr @ [A_bytes (bytes_u32 w)]) (Emit_u32 w cg)"
  by (simp add: Emit_u32_def emitted_bytes)

lemma emitted_u64: "emitted tr cg \<Longrightarrow> emitted (tr @ [A_bytes (bytes_u64 w)]) (Emit_u64 w cg)"
  by (simp add: Emit_u64_def emitted_bytes)

lemma depth_emit [simp]:
  "depth (Emit_Opcode op cg) = depth cg" "depth (Emit_u32 w cg) = depth cg"
  "depth (Emit_u64 v cg) = depth cg"
  by (simp_all add: Emit_Opcode_def Emit_u32_def Emit_u64_def)

lemma emitted_ins2:
  "emitted tr cg \<Longrightarrow> emitted (tr @ [ins op, A_bytes (bytes_u32 w)]) (Emit_u32 w (Emit_Opcode op cg))"
  "emitted tr cg \<Longrightarrow> emitted (tr @ [ins op, A_bytes (bytes_u64 v)]) (Emit_u64 v (Emit_Opcode op cg))"
  "emitted tr cg \<Longrightarrow> emitted (tr @ [ins op, A_ref l]) (EmitFixup l (Emit_Opcode op cg))"
  using emitted_u32 [OF emitted_ins, of tr cg op w] emitted_u64 [OF emitted_ins, of tr cg op v]
    emitted_ref [OF emitted_ins, of tr cg op l]
  by simp_all

lemma emit_drop1_asm:
  "emit_drop1 op cg = Inr cg' \<Longrightarrow> emitted tr cg \<Longrightarrow>
   emitted (tr @ [ins op]) cg' \<and> depth cg' = depth cg - 1"
  using emitted_ins [of tr "cg\<lparr>depth := depth cg - 1\<rparr>" op]
  by (auto simp: emit_drop1_def split: if_splits)

lemma EmitKind_asm:
  "EmitKind kind cg = Inr cg' \<Longrightarrow> emitted tr cg \<Longrightarrow>
   emitted (tr @ [ins (kind_opcode kind)]) cg' \<and> depth cg' = depth cg - 1"
  by (cases kind)
    (simp_all add: EmitAdd_def EmitSub_def EmitMul_def EmitDiv_def EmitMod_def EmitGreater_def
      EmitLower_def EmitGreaterEqual_def EmitLowerEqual_def EmitIsEqual_def emit_drop1_asm)

lemma LowerRefExpr_asm:
  assumes a: "LowerRefExpr sc name cg = Inr cg'" and p: "emitted tr cg"
  shows "emitted (tr @ asm_ref (depth cg) (Lookup sc name)) cg' \<and> depth cg' = depth cg + 1"
proof -
  from a obtain b where b: "Lookup sc name = Inr b"
    by (auto simp: LowerRefExpr_def bind_err_eq_Inr)
  let ?c = "cg\<lparr>depth := depth cg + 1\<rparr>"
  have p': "emitted tr ?c" using p by simp
  show ?thesis
  proof (cases b)
    case (B_FUNC l)
    with a b have "cg' = EmitPushFunc l cg" by (simp add: LowerRefExpr_def)
    then show ?thesis using emitted_ins2(3) [OF p', of PUSH_FUNC l] b B_FUNC
      by (simp add: EmitPushFunc_def)
  next
    case (B_PROTO f)
    with a b have "cg' = EmitPushProto f cg" by (simp add: LowerRefExpr_def)
    then show ?thesis using emitted_ins2(2) [OF p', of PUSH_PROTO f] b B_PROTO
      by (simp add: EmitPushProto_def)
  next
    case (B_ARG i)
    with a b have "cg' = EmitPeek (depth cg + i + 1) cg" by (simp add: LowerRefExpr_def)
    then show ?thesis using emitted_ins2(1) [OF p', of PEEK "depth cg + i + 1"] b B_ARG
      by (simp add: EmitPeek_def)
  next
    case (B_LOCAL i)
    with a b have "cg' = EmitPeek (depth cg - i) cg" by (simp add: LowerRefExpr_def)
    then show ?thesis using emitted_ins2(1) [OF p', of PEEK "depth cg - i"] b B_LOCAL
      by (simp add: EmitPeek_def)
  qed
qed

lemma LowerExpr_asm:
  "LowerExpr sc e cg = Inr cg' \<Longrightarrow> emitted tr cg \<Longrightarrow>
     emitted (tr @ asm_expr sc (depth cg) e) cg' \<and> depth cg' = depth cg + 1"
  and "LowerArgs sc es cg = Inr cg' \<Longrightarrow> emitted tr cg \<Longrightarrow>
     emitted (tr @ asm_args sc (depth cg) es) cg' \<and> depth cg' = depth cg + of_nat (length es)"
proof (induction sc e cg and sc es cg arbitrary: cg' tr and cg' tr rule: LowerExpr_LowerArgs.induct)
  case (1 scope name cg)
  then show ?case using LowerRefExpr_asm [of scope name cg cg' tr] by simp
next
  case (2 scope kind lhs rhs cg)
  from "2.prems"(1) obtain c1 c2 where
    a: "LowerExpr scope lhs cg = Inr c1" and b: "LowerExpr scope rhs c1 = Inr c2"
    and c: "EmitKind kind c2 = Inr cg'"
    by (auto simp: bind_err_eq_Inr)
  note 1 = "2.IH"(1) [OF a "2.prems"(2)]
  note 2 = "2.IH"(2) [OF a b conjunct1 [OF 1]]
  note 3 = EmitKind_asm [OF c conjunct1 [OF 2]]
  show ?case using 1 2 3 by simp
next
  case (3 scope callee args cg)
  from "3.prems"(1) obtain c1 c2 where
    a: "LowerArgs scope args cg = Inr c1" and b: "LowerExpr scope callee c1 = Inr c2"
    and c: "cg' = (EmitCall (length args) c2)\<lparr>depth := depth (EmitCall (length args) c2) - of_nat (length args)\<rparr>"
    by (auto simp: bind_err_eq_Inr Let_def)
  note 1 = "3.IH"(1) [OF a "3.prems"(2)]
  note 2 = "3.IH"(2) [OF a b conjunct1 [OF 1]]
  note 3 = emitted_ins [OF conjunct1 [OF 2], of CALL]
  show ?case unfolding c using 1 2 3 by (simp add: EmitCall_def)
next
  case (4 scope number cg)
  then show ?case
    using emitted_ins2(2) [of tr "cg\<lparr>depth := depth cg + 1\<rparr>" PUSH_INT number]
    by (auto simp: LowerIntExpr_def EmitInt_def)
next
  case (5 scope cg)
  then show ?case by simp
next
  case (6 scope arg args cg)
  from "6.prems"(1) obtain c1 where
    a: "LowerArgs scope args cg = Inr c1" and b: "LowerExpr scope arg c1 = Inr cg'"
    by (auto simp: bind_err_eq_Inr)
  note 1 = "6.IH"(1) [OF a "6.prems"(2)]
  note 2 = "6.IH"(2) [OF a b conjunct1 [OF 1]]
  show ?case using 1 2 by (simp add: add.commute add.left_commute)
qed

lemma LowerExpr_nextLabel: "LowerExpr sc e cg = Inr cg' \<Longrightarrow> nextLabel cg' = nextLabel cg"
  by (rule LowerExpr_inv(1) [where P = "\<lambda>c. nextLabel c = nextLabel cg"]) simp_all

lemma LowerExpr_asm2:
  assumes "LowerExpr sc e cg = Inr cg'" and "emitted tr cg"
  shows "emitted (tr @ asm_expr sc (depth cg) e) cg' \<and> depth cg' = depth cg + 1 \<and>
    nextLabel cg' = nextLabel cg \<and> func cg' = func cg"
  using LowerExpr_asm(1) [OF assms] LowerExpr_nextLabel [OF assms(1)] LowerExpr_func [OF assms(1)]
  by simp

lemma EmitLabel_asm:
  assumes "EmitLabel l cg = Inr cg'" and "emitted tr cg"
  shows "emitted (tr @ [A_label l]) cg' \<and> depth cg' = depth cg \<and>
    nextLabel cg' = nextLabel cg \<and> func cg' = func cg"
  using emitted_label [OF assms(2,1)] frame_EmitLabel [OF assms(1)] by simp

lemma EmitJumpFalse_asm:
  assumes "EmitJumpFalse l cg = Inr cg'" and "emitted tr cg"
  shows "emitted (tr @ [ins JUMP_FALSE, A_ref l]) cg' \<and> depth cg' = depth cg - 1 \<and>
    nextLabel cg' = nextLabel cg \<and> func cg' = func cg"
  using assms emitted_ins2(3) [of tr "cg\<lparr>depth := depth cg - 1\<rparr>" JUMP_FALSE l]
  by (auto simp: EmitJumpFalse_def Emit_Opcode_def split: if_splits)

lemma EmitJump_asm:
  assumes "emitted tr cg"
  shows "emitted (tr @ [ins JUMP, A_ref l]) (EmitJump l cg) \<and> depth (EmitJump l cg) = depth cg \<and>
    nextLabel (EmitJump l cg) = nextLabel cg \<and> func (EmitJump l cg) = func cg"
  using emitted_ins2(3) [OF assms, of JUMP l]
  by (auto simp: EmitJump_def Emit_Opcode_def)

lemma EmitPop_asm:
  assumes "EmitPop cg = Inr cg'" and "emitted tr cg"
  shows "emitted (tr @ [ins POP]) cg' \<and> depth cg' = depth cg - 1 \<and>
    nextLabel cg' = nextLabel cg \<and> func cg' = func cg"
  using assms emit_drop1_asm [of POP cg cg' tr]
  by (auto simp: EmitPop_def emit_drop1_def Emit_Opcode_def Emit_bytes_def split: if_splits)

lemma EmitPops_asm:
  "EmitPops n cg = Inr cg' \<Longrightarrow> emitted tr cg \<Longrightarrow>
   emitted (tr @ replicate n (ins POP)) cg' \<and> nextLabel cg' = nextLabel cg \<and> func cg' = func cg"
proof (induction n arbitrary: cg tr)
  case 0
  then show ?case by simp
next
  case (Suc n)
  from Suc.prems(1) obtain c1 where a: "EmitPop cg = Inr c1" and b: "EmitPops n c1 = Inr cg'"
    by (auto simp: bind_err_eq_Inr)
  note 1 = EmitPop_asm [OF a Suc.prems(2)]
  note 2 = Suc.IH [OF b conjunct1 [OF 1]]
  show ?case using 1 2 by simp
qed

lemma EmitReturn_asm:
  assumes "EmitReturn cg = Inr cg'" and "emitted tr cg"
  shows "emitted (tr @ [ins RET, A_bytes (bytes_u32 (depth cg - 1)), A_bytes (bytes_u32 (arg_count cg))]) cg' \<and>
    depth cg' = depth cg - 1 \<and> nextLabel cg' = nextLabel cg \<and> func cg' = func cg"
proof -
  let ?c = "cg\<lparr>depth := depth cg - 1\<rparr>"
  have "emitted tr ?c" using assms(2) by simp
  from emitted_u32 [OF emitted_ins2(1) [OF this, of RET "depth cg - 1"], of "arg_count cg"]
  show ?thesis using assms(1)
    by (auto simp: EmitReturn_def Let_def arg_count_def Emit_Opcode_def Emit_u32_def Emit_bytes_def
        split: if_splits)
qed

lemma MakeLabel_eq: "MakeLabel cg = (nextLabel cg + 1, cg\<lparr>nextLabel := nextLabel cg + 1\<rparr>)"
  by (simp add: MakeLabel_def)

lemma add3: "n + 3 = Suc (Suc (Suc n))"
  by simp

lemma LowerStmt_asm:
  "LowerStmt sc s cg = Inr (sc', cg') \<Longrightarrow> emitted tr cg \<Longrightarrow>
     lowers tr cg (asm_stmt (arg_count cg) sc (depth cg) (nextLabel cg) s) sc' cg'"
  "LowerBlockStmt sc ss cg = Inr (sc', cg') \<Longrightarrow> emitted tr cg \<Longrightarrow>
     lowers tr cg (asm_stmt (arg_count cg) sc (depth cg) (nextLabel cg) (BlockStmt ss)) sc' cg'"
  "LowerStmts sc ss cg = Inr (sc', cg') \<Longrightarrow> emitted tr cg \<Longrightarrow>
     lowers tr cg (asm_stmts (arg_count cg) sc (depth cg) (nextLabel cg) ss) sc' cg'"
proof (induction sc s cg and sc ss cg and sc ss cg arbitrary: sc' cg' tr and sc' cg' tr and sc' cg' tr
    rule: LowerStmt_LowerBlockStmt_LowerStmts.induct)
  case (1 scope body cg)
  then show ?case by simp
next
  case (2 scope cond body cg)
  let ?entry = "nextLabel cg + 1"
  let ?exit = "nextLabel cg + 1 + 1"
  let ?c0 = "cg\<lparr>nextLabel := nextLabel cg + 1\<rparr>"
  let ?c0' = "?c0\<lparr>nextLabel := nextLabel ?c0 + 1\<rparr>"
  have m1: "MakeLabel cg = (?entry, ?c0)" by (rule MakeLabel_eq)
  have m2: "MakeLabel ?c0 = (?exit, ?c0')" using MakeLabel_eq [of ?c0] by simp
  from "2.prems"(1) obtain c1 c2 c3 s4 c4 where
    s1: "EmitLabel ?entry ?c0' = Inr c1" and s2: "LowerExpr scope cond c1 = Inr c2"
    and s3: "EmitJumpFalse ?exit c2 = Inr c3" and s4: "LowerStmt scope body c3 = Inr (s4, c4)"
    and s5: "EmitLabel ?exit (EmitJump ?entry c4) = Inr cg'" and sc: "sc' = s4"
    by (auto simp: bind_err_eq_Inr MakeLabel_def)
  have e0: "emitted tr ?c0'" using "2.prems"(2) by simp
  note 1 = EmitLabel_asm [OF s1 e0]
  note 2 = LowerExpr_asm2 [OF s2 conjunct1 [OF 1]]
  note 3 = EmitJumpFalse_asm [OF s3 conjunct1 [OF 2]]
  note 4 = "2.IH" [OF m1 [symmetric] refl m2 [symmetric] refl s1 s2 s3 s4 conjunct1 [OF 3]]
  have f3: "arg_count c3 = arg_count cg" "depth c3 = depth cg" "nextLabel c3 = nextLabel cg + 2"
    using 1 2 3 by (simp_all add: arg_count_def)
  have d1: "depth c1 = depth cg" using 1 by simp
  from 4 have e4: "emitted (((tr @ [A_label ?entry]) @ asm_expr scope (depth cg) cond) @
        [ins JUMP_FALSE, A_ref ?exit] @
        fst (asm_stmt (arg_count cg) scope (depth cg) (nextLabel cg + 2) body)) c4"
    and r4: "snd (asm_stmt (arg_count cg) scope (depth cg) (nextLabel cg + 2) body)
        = (s4, depth c4, nextLabel c4)"
    and g4: "func c4 = func c3"
    unfolding lowers_def f3 d1 by simp_all
  note 5 = EmitJump_asm [OF e4, of ?entry]
  note 6 = EmitLabel_asm [OF s5 conjunct1 [OF 5]]
  have fn: "func cg' = func cg" using 1 2 3 g4 5 6 by simp
  show ?case
    unfolding lowers_def using 6 5 r4 fn sc
    by (simp add: Let_def case_prod_unfold)
next
  case (3 scope cond body elseBranch cg)
  let ?entry = "nextLabel cg + 1"
  let ?else = "nextLabel cg + 1 + 1"
  let ?exit = "nextLabel cg + 1 + 1 + 1"
  let ?c0 = "cg\<lparr>nextLabel := nextLabel cg + 1\<rparr>"
  let ?c0' = "?c0\<lparr>nextLabel := nextLabel ?c0 + 1\<rparr>"
  let ?c0'' = "?c0'\<lparr>nextLabel := nextLabel ?c0' + 1\<rparr>"
  have m1: "MakeLabel cg = (?entry, ?c0)" by (rule MakeLabel_eq)
  have m2: "MakeLabel ?c0 = (?else, ?c0')" using MakeLabel_eq [of ?c0] by simp
  have m3: "MakeLabel ?c0' = (?exit, ?c0'')" using MakeLabel_eq [of ?c0'] by simp
  from "3.prems"(1) obtain c1 c2 c3 s4 c4 c5 s6 c6 where
    s1: "EmitLabel ?entry ?c0'' = Inr c1" and s2: "LowerExpr scope cond c1 = Inr c2"
    and s3: "EmitJumpFalse ?else c2 = Inr c3" and s4: "LowerStmt scope body c3 = Inr (s4, c4)"
    and s5: "EmitLabel ?else (EmitJump ?exit c4) = Inr c5"
    and s6: "(case elseBranch of Some stmt \<Rightarrow> LowerStmt s4 stmt c5 | None \<Rightarrow> Inr (s4, c5)) = Inr (s6, c6)"
    and s7: "EmitLabel ?exit c6 = Inr cg'" and sc: "sc' = s6"
    by (auto simp: bind_err_eq_Inr MakeLabel_def)
  have e0: "emitted tr ?c0''" using "3.prems"(2) by simp
  note 1 = EmitLabel_asm [OF s1 e0]
  note 2 = LowerExpr_asm2 [OF s2 conjunct1 [OF 1]]
  note 3 = EmitJumpFalse_asm [OF s3 conjunct1 [OF 2]]
  note 4 = "3.IH"(1) [OF m1 [symmetric] refl m2 [symmetric] refl m3 [symmetric] refl s1 s2 s3 s4
      conjunct1 [OF 3]]
  have f3: "arg_count c3 = arg_count cg" "depth c3 = depth cg" "nextLabel c3 = nextLabel cg + 3"
    using 1 2 3 by (simp_all add: arg_count_def)
  have d1: "depth c1 = depth cg" using 1 by simp
  let ?b = "asm_stmt (arg_count cg) scope (depth cg) (nextLabel cg + 3) body"
  let ?t4 = "((tr @ [A_label ?entry]) @ asm_expr scope (depth cg) cond) @
        [ins JUMP_FALSE, A_ref ?else] @ fst ?b"
  from 4 have e4: "emitted ?t4 c4" and r4: "snd ?b = (s4, depth c4, nextLabel c4)"
    and g4: "func c4 = func c3"
    unfolding lowers_def f3 d1 by simp_all
  note 5 = EmitJump_asm [OF e4, of ?exit]
  note 6 = EmitLabel_asm [OF s5 conjunct1 [OF 5]]
  have f5: "arg_count c5 = arg_count cg" "depth c5 = depth c4" "nextLabel c5 = nextLabel c4"
    using 1 2 3 g4 5 6 by (simp_all add: arg_count_def)
  let ?e = "case elseBranch of
               Some stmt \<Rightarrow> asm_stmt (arg_count cg) s4 (depth c4) (nextLabel c4) stmt
             | None \<Rightarrow> ([], s4, depth c4, nextLabel c4)"
  let ?t5 = "(?t4 @ [ins JUMP, A_ref ?exit]) @ [A_label ?else]"
  have 7: "lowers ?t5 c5 ?e s6 c6"
  proof (cases elseBranch)
    case None
    with s6 show ?thesis using 6 f5 by (auto simp: lowers_def)
  next
    case (Some stmt)
    with s6 have "LowerStmt s4 stmt c5 = Inr (s6, c6)" by simp
    from "3.IH"(2) [OF m1 [symmetric] refl m2 [symmetric] refl m3 [symmetric] refl s1 s2 s3
          s4 refl s5 Some this conjunct1 [OF 6]]
    show ?thesis using Some by (simp add: f5)
  qed
  then have e6: "emitted (?t5 @ fst ?e) c6" and r6: "snd ?e = (s6, depth c6, nextLabel c6)"
    and g6: "func c6 = func c5"
    unfolding lowers_def by simp_all
  note 8 = EmitLabel_asm [OF s7 e6]
  have fn: "func cg' = func cg" using 1 2 3 g4 5 6 g6 8 by simp
  show ?case
  proof (cases elseBranch)
    case None
    then show ?thesis
      unfolding lowers_def using 8 r4 r6 fn sc
      by (simp add: Let_def case_prod_unfold add3)
  next
    case (Some stmt)
    then show ?thesis
      unfolding lowers_def using 8 r4 r6 fn sc
      by (simp add: Let_def case_prod_unfold add3)
  qed
next
  case (4 scope e cg)
  from "4.prems"(1) have "\<exists>c1. LowerExpr scope e cg = Inr c1 \<and> EmitPop c1 = Inr cg' \<and> sc' = scope"
    unfolding LowerStmt.simps LowerExprStmt_def bind_err_eq_Inr by blast
  then obtain c1 where a: "LowerExpr scope e cg = Inr c1" and b: "EmitPop c1 = Inr cg'"
    and sc: "sc' = scope" by blast
  note 1 = LowerExpr_asm2 [OF a "4.prems"(2)]
  note 2 = EmitPop_asm [OF b conjunct1 [OF 1]]
  show ?case unfolding lowers_def using 1 2 sc by simp
next
  case (5 scope e cg)
  from "5.prems"(1) have "\<exists>c1. LowerExpr scope e cg = Inr c1 \<and> EmitReturn c1 = Inr cg' \<and> sc' = scope"
    unfolding LowerStmt.simps LowerReturnStmt_def bind_err_eq_Inr by blast
  then obtain c1 where a: "LowerExpr scope e cg = Inr c1" and b: "EmitReturn c1 = Inr cg'"
    and sc: "sc' = scope" by blast
  note 1 = LowerExpr_asm2 [OF a "5.prems"(2)]
  note 2 = EmitReturn_asm [OF b conjunct1 [OF 1]]
  have "arg_count c1 = arg_count cg" using 1 by (simp add: arg_count_def)
  then show ?case unfolding lowers_def using 1 2 sc by simp
next
  case (6 scope name type init cg)
  show ?case
  proof (cases init)
    case None
    then show ?thesis using "6.prems" by (auto simp: LowerLetStmt_def lowers_def)
  next
    case (Some e)
    with "6.prems"(1) have a: "LowerExpr scope e cg = Inr cg'" and sc: "sc' = AddLocal scope name (depth cg')"
      by (auto simp: LowerLetStmt_def bind_err_eq_Inr)
    note 1 = LowerExpr_asm2 [OF a "6.prems"(2)]
    show ?thesis unfolding lowers_def using 1 sc Some by simp
  qed
next
  case (7 scope body cg)
  from "7.prems"(1) obtain bs c1 where
    s1: "LowerStmts (BlockScope scope []) body cg = Inr (bs, c1)"
    and s2: "EmitPops (NumberOfLocals bs) c1 = Inr cg'" and s3: "depth cg' = depth cg"
    and sc: "sc' = scope"
    by (auto simp: bind_err_eq_Inr Let_def split: if_splits)
  note 1 = "7.IH" [OF refl s1 "7.prems"(2)]
  let ?b = "asm_stmts (arg_count cg) (BlockScope scope []) (depth cg) (nextLabel cg) body"
  from 1 have e1: "emitted (tr @ fst ?b) c1" and r1: "snd ?b = (bs, depth c1, nextLabel c1)"
    and g1: "func c1 = func cg"
    unfolding lowers_def by simp_all
  note 2 = EmitPops_asm [OF s2 e1]
  show ?case unfolding lowers_def using 2 r1 g1 s3 sc
    by (simp add: Let_def case_prod_unfold)
next
  case (8 scope cg)
  then show ?case by (simp add: lowers_def)
next
  case (9 scope stmt stmts cg)
  from "9.prems"(1) obtain s1 c1 where
    a: "LowerStmt scope stmt cg = Inr (s1, c1)" and b: "LowerStmts s1 stmts c1 = Inr (sc', cg')"
    by (auto simp: bind_err_eq_Inr)
  note 1 = "9.IH"(1) [OF a "9.prems"(2)]
  let ?a = "asm_stmt (arg_count cg) scope (depth cg) (nextLabel cg) stmt"
  from 1 have e1: "emitted (tr @ fst ?a) c1" and r1: "snd ?a = (s1, depth c1, nextLabel c1)"
    and g1: "func c1 = func cg"
    unfolding lowers_def by simp_all
  note 2 = "9.IH"(2) [OF a refl b e1]
  have ac: "arg_count c1 = arg_count cg" using g1 by (simp add: arg_count_def)
  show ?case using 2 r1 g1 unfolding lowers_def ac
    by (simp add: Let_def case_prod_unfold)
qed

lemma decls_simps [simp]:
  "top_stmts [] = []" "top_stmts (T_Stmt s # m) = s # top_stmts m"
  "top_stmts (T_Func d # m) = top_stmts m" "top_stmts (T_Proto p # m) = top_stmts m"
  "func_decls [] = []" "func_decls (T_Func d # m) = d # func_decls m"
  "func_decls (T_Stmt s # m) = func_decls m" "func_decls (T_Proto p # m) = func_decls m"
  "proto_decls [] = []" "proto_decls (T_Proto p # m) = p # proto_decls m"
  "proto_decls (T_Stmt s # m) = proto_decls m" "proto_decls (T_Func d # m) = proto_decls m"
  by (simp_all add: top_stmts_def func_decls_def proto_decls_def)

lemma LowerStmt_funcs:
  "LowerStmt sc s cg = Inr (sc', cg') \<Longrightarrow> funcs cg' = funcs cg"
  "LowerBlockStmt sc ss cg = Inr (sc', cg') \<Longrightarrow> funcs cg' = funcs cg"
  by (rule LowerStmt_inv(1) [where P = "\<lambda>c. funcs c = funcs cg"]; simp add: frame_EmitLabel)
    (rule LowerStmt_inv(2) [where P = "\<lambda>c. funcs c = funcs cg"]; simp add: frame_EmitLabel)

lemma LowerTopLevel_asm:
  "LowerTopLevel g m cg = Inr (g', cg') \<Longrightarrow> emitted tr cg \<Longrightarrow>
   lowers tr cg (asm_stmts (arg_count cg) g (depth cg) (nextLabel cg) (top_stmts m)) g' cg'"
proof (induction g m cg arbitrary: tr rule: LowerTopLevel.induct)
  case (1 global cg)
  then show ?case by (simp add: lowers_def)
next
  case (2 global stmt items cg)
  from "2.prems"(1) obtain g1 c1 where
    a: "LowerStmt global stmt cg = Inr (g1, c1)" and b: "LowerTopLevel g1 items c1 = Inr (g', cg')"
    by (auto simp: bind_err_eq_Inr)
  note 1 = LowerStmt_asm(1) [OF a "2.prems"(2)]
  let ?a = "asm_stmt (arg_count cg) global (depth cg) (nextLabel cg) stmt"
  from 1 have e1: "emitted (tr @ fst ?a) c1" and r1: "snd ?a = (g1, depth c1, nextLabel c1)"
    and g1: "func c1 = func cg"
    unfolding lowers_def by simp_all
  note 2 = "2.IH" [OF a refl b e1]
  have ac: "arg_count c1 = arg_count cg" using g1 by (simp add: arg_count_def)
  show ?case using 2 r1 g1 unfolding lowers_def ac
    by (simp add: Let_def case_prod_unfold)
next
  case (3 global decl items cg)
  then show ?case by simp
next
  case (4 global proto items cg)
  then show ?case by simp
qed

lemma LowerFuncDecl_asm:
  assumes a: "LowerFuncDecl sc decl cg = Inr cg'" and p: "emitted tr cg"
  shows "emitted (tr @ (case funcs cg (func_name decl) of None \<Rightarrow> [] | Some entry \<Rightarrow> [A_label entry]) @
        fst (asm_stmt (of_nat (length (func_args decl))) (FuncScope sc (arg_map (func_args decl) []))
              0 (nextLabel cg) (BlockStmt (func_body decl)))) cg' \<and>
     nextLabel cg' = snd (snd (snd (asm_stmt (of_nat (length (func_args decl)))
              (FuncScope sc (arg_map (func_args decl) [])) 0 (nextLabel cg) (BlockStmt (func_body decl))))) \<and>
     funcs cg' = funcs cg"
proof -
  from a obtain entry c1 s2 c2 where
    s0: "funcs cg (func_name decl) = Some entry" and s1: "EmitLabel entry cg = Inr c1"
    and d1: "depth c1 = 0"
    and s2: "LowerBlockStmt (FuncScope sc (arg_map (func_args decl) [])) (func_body decl)
        (c1\<lparr>func := Some decl\<rparr>) = Inr (s2, c2)"
    and s3: "cg' = c2\<lparr>func := None\<rparr>"
    by (auto simp: LowerFuncDecl_def bind_err_eq_Inr Let_def split: option.splits if_splits)
  let ?c = "c1\<lparr>func := Some decl\<rparr>"
  note 1 = EmitLabel_asm [OF s1 p]
  have e: "emitted (tr @ [A_label entry]) ?c" using 1 by simp
  have f: "arg_count ?c = of_nat (length (func_args decl))" "depth ?c = 0" "nextLabel ?c = nextLabel cg"
    using 1 d1 by (simp_all add: arg_count_def)
  note 2 = LowerStmt_asm(2) [OF s2 e, unfolded f lowers_def]
  have "funcs c2 = funcs ?c" using LowerStmt_funcs(2) [OF s2] .
  then have "funcs cg' = funcs cg" using s3 frame_EmitLabel [OF s1] by simp
  then show ?thesis using 2 s0 s3 by simp
qed

lemma LowerFuncs_asm:
  "LowerFuncs g m cg = Inr cg' \<Longrightarrow> emitted tr cg \<Longrightarrow>
   emitted (tr @ asm_funcs g (funcs cg) (nextLabel cg) (func_decls m)) cg'"
proof (induction g m cg arbitrary: tr rule: LowerFuncs.induct)
  case (1 global cg)
  then show ?case by simp
next
  case (2 global decl items cg)
  from "2.prems"(1) obtain c1 where
    a: "LowerFuncDecl global decl cg = Inr c1" and b: "LowerFuncs global items c1 = Inr cg'"
    by (auto simp: bind_err_eq_Inr)
  note 1 = LowerFuncDecl_asm [OF a "2.prems"(2)]
  note 2 = "2.IH" [OF a b conjunct1 [OF 1]]
  show ?case using 2 1 by (simp add: Let_def case_prod_unfold)
next
  case (3 global stmt items cg)
  then show ?case by simp
next
  case (4 global proto items cg)
  then show ?case by simp
qed

lemma declared_protos_Cons:
  "k (proto_primitive p) = Some fn \<Longrightarrow>
     declared_protos k (T_Proto p # m) = declared_protos k m ++ [proto_name p \<mapsto> fn]"
  "declared_protos k (T_Func d # m) = declared_protos k m"
  "declared_protos k (T_Stmt s # m) = declared_protos k m"
  by (auto simp: declared_protos_def fun_eq_iff map_add_def split: option.splits)

lemma upt_Suc_Cons: "[a ..< a + Suc n] = a # [a + 1 ..< a + 1 + n]"
  by (simp add: upt_conv_Cons)

lemma Declare_maps:
  "Declare k m ps cg = Inr (ps', cg') \<Longrightarrow>
   funcs cg' =
     map_of (zip (map func_name (func_decls m))
       [nextLabel cg + 1 ..< nextLabel cg + 1 + length (func_decls m)]) ++ funcs cg \<and>
   nextLabel cg' = nextLabel cg + length (func_decls m) \<and>
   ps' = declared_protos k m ++ ps \<and>
   (\<forall>p. T_Proto p \<in> set m \<longrightarrow> k (proto_primitive p) \<noteq> None)"
proof (induction k m ps cg rule: Declare.induct)
  case (1 kRuntimeFns protos cg)
  then show ?case by (simp add: declared_protos_def)
next
  case (2 kRuntimeFns proto items protos cg)
  from "2.prems" obtain fn where fn: "kRuntimeFns (proto_primitive proto) = Some fn"
    by (auto split: option.splits)
  let ?ps = "case protos (proto_name proto) of Some old \<Rightarrow> protos
             | None \<Rightarrow> protos(proto_name proto \<mapsto> fn)"
  from "2.prems" fn have d: "Declare kRuntimeFns items ?ps cg = Inr (ps', cg')" by simp
  note ih = "2.IH" [OF fn d]
  have "declared_protos kRuntimeFns items ++ ?ps =
      declared_protos kRuntimeFns (T_Proto proto # items) ++ protos"
    by (auto simp: declared_protos_Cons(1) [of kRuntimeFns proto fn] fn fun_eq_iff map_add_def
        split: option.splits)
  then show ?case using ih fn by auto
next
  case (3 kRuntimeFns decl items protos cg)
  let ?c = "cg\<lparr>nextLabel := nextLabel cg + 1\<rparr>"
  let ?c1 = "case funcs ?c (func_name decl) of Some old \<Rightarrow> ?c
             | None \<Rightarrow> ?c\<lparr>funcs := (funcs ?c)(func_name decl \<mapsto> nextLabel cg + 1)\<rparr>"
  have m: "MakeLabel cg = (nextLabel cg + 1, ?c)" by (simp add: MakeLabel_def)
  from "3.prems" have d: "Declare kRuntimeFns items protos ?c1 = Inr (ps', cg')"
    by (cases "funcs cg (func_name decl)") (simp_all add: MakeLabel_def)
  note ih = "3.IH" [OF m [symmetric] refl d]
  have n1: "nextLabel ?c1 = nextLabel cg + 1" by (simp split: option.splits)
  let ?n = "length (func_decls items)"
  have u: "[nextLabel cg + 1 ..< nextLabel cg + 1 + Suc ?n] =
      (nextLabel cg + 1) # [nextLabel cg + 1 + 1 ..< nextLabel cg + 1 + 1 + ?n]"
    by (rule upt_Suc_Cons)
  have "map_of (zip (map func_name (func_decls items))
          [nextLabel cg + 1 + 1 ..< nextLabel cg + 1 + 1 + ?n]) ++ funcs ?c1 =
      map_of (zip (map func_name (func_decls (T_Func decl # items)))
          [nextLabel cg + 1 ..< nextLabel cg + 1 + length (func_decls (T_Func decl # items))]) ++ funcs cg"
    unfolding decls_simps list.map length_Cons u zip_Cons_Cons map_of.simps
    by (auto simp: fun_eq_iff map_add_def split: option.splits)
  then show ?case using ih unfolding n1 by (simp add: declared_protos_Cons)
next
  case (4 kRuntimeFns stmt items protos cg)
  then show ?case by (simp add: declared_protos_Cons)
qed

lemma Declare_init:
  assumes "Declare k m Map.empty init_Codegen = Inr (ps, cg0)"
  shows "ps = declared_protos k m" "funcs cg0 = declared_funcs m"
    "nextLabel cg0 = length (func_decls m)" "code cg0 = []" "depth cg0 = 0" "func cg0 = None"
    "emitted [] cg0" "\<forall>p. T_Proto p \<in> set m \<longrightarrow> k (proto_primitive p) \<noteq> None"
proof -
  note 1 = Declare_maps [OF assms]
  note 2 = Declare_facts [OF assms]
  show "ps = declared_protos k m" using 1 by simp
  show "funcs cg0 = declared_funcs m" using 1 by (simp add: declared_funcs_def init_Codegen_def)
  show "nextLabel cg0 = length (func_decls m)" using 1 by (simp add: init_Codegen_def)
  show "code cg0 = []" "depth cg0 = 0" "func cg0 = None" using 2 by (simp_all add: init_Codegen_def)
  show "emitted [] cg0" using 2 emitted_init by (simp add: emitted_def sites_of_def)
  show "\<forall>p. T_Proto p \<in> set m \<longrightarrow> k (proto_primitive p) \<noteq> None" using 1 by simp
qed

lemma fsites_ref: "A_ref l \<in> set tr \<Longrightarrow> l \<notin> labels_of tr \<Longrightarrow> fsites l pos tr \<noteq> []"
  by (induction tr arbitrary: pos) (auto simp: labels_of_def)

lemma emitted_bound: "emitted tr cg \<Longrightarrow> labelToAddress cg l \<noteq> None \<longleftrightarrow> A_label l \<in> set tr"
  using first_label_None [of l 0 tr] by (auto simp: emitted_def labels_of_def)

lemma Translate_emitted:
  assumes "Translate k m init_Codegen = Inr bytes"
  obtains protos cg0 global cg1 cg2 where
    "Declare k m Map.empty init_Codegen = Inr (protos, cg0)"
    "LowerTopLevel (GlobalScope (funcs cg0) protos) m cg0 = Inr (global, cg1)"
    "LowerFuncs global m (Emit_Opcode STOP cg1) = Inr cg2"
    "bytes = code cg2" "emitted (asm_module k m) cg2"
proof -
  from assms obtain protos cg0 global cg1 cg2 where
    d: "Declare k m Map.empty init_Codegen = Inr (protos, cg0)"
    and t: "LowerTopLevel (GlobalScope (funcs cg0) protos) m cg0 = Inr (global, cg1)"
    and f: "LowerFuncs global m (Emit_Opcode STOP cg1) = Inr cg2"
    and b: "bytes = code cg2"
    by (auto simp: Translate_def bind_err_eq_Inr init_facts split: if_splits)
  note di = Declare_init [OF d]
  have ac: "arg_count cg0 = 0" using di(6) by (simp add: arg_count_def)
  let ?t = "asm_stmts 0 (GlobalScope (declared_funcs m) (declared_protos k m)) 0
      (length (func_decls m)) (top_stmts m)"
  from LowerTopLevel_asm [OF t di(7)]
  have e1: "emitted (fst ?t) cg1" and r1: "snd ?t = (global, depth cg1, nextLabel cg1)"
    unfolding lowers_def ac di by simp_all
  have f1: "funcs cg1 = declared_funcs m"
    using LowerTopLevel_inv [where P = "\<lambda>c. funcs c = declared_funcs m", OF _ _ _ _ _ t] di(2)
    by (simp add: frame_EmitLabel)
  let ?cS = "Emit_Opcode STOP cg1"
  have eS: "emitted (fst ?t @ [ins STOP]) ?cS" using e1 by (rule emitted_ins)
  have fS: "funcs ?cS = declared_funcs m" "nextLabel ?cS = nextLabel cg1"
    using f1 by (simp_all add: Emit_Opcode_def)
  from LowerFuncs_asm [OF f eS]
  have "emitted ((fst ?t @ [ins STOP]) @
      asm_funcs global (declared_funcs m) (nextLabel cg1) (func_decls m)) cg2"
    unfolding fS .
  then have "emitted (asm_module k m) cg2"
    using r1 by (simp add: asm_module_def Let_def case_prod_unfold)
  then show ?thesis using that d t f b by blast
qed


text \<open>
  Claim C6. When \<^verbatim>\<open>Translate\<close>, run on a fresh \<^verbatim>\<open>Codegen\<close>, returns a program, then:
  the pre-pass bound every prototype name to the primitive that the runtime table holds
  for its primitive name, and every function name to a fresh label, no two names to the
  same one; the program is, byte for byte, the code of the top-level statements in source
  order, then one \<^verbatim>\<open>STOP\<close>, then the bodies of the functions in source order, where
  every reference holds the offset of its label (in its low 4 bytes when the label is
  placed after the reference); the entry label of every function is placed; and every
  label that is referred to is placed, so that no reference is left with the placeholder.
\<close>

theorem Translate_layout:
  assumes "Translate kRuntimeFns m init_Codegen = Inr bytes"
  shows "Declare kRuntimeFns m Map.empty init_Codegen =
           Inr (declared_protos kRuntimeFns m,
                init_Codegen\<lparr>nextLabel := length (func_decls m), funcs := declared_funcs m\<rparr>) \<and>
         (\<forall>p. T_Proto p \<in> set m \<longrightarrow> kRuntimeFns (proto_primitive p) \<noteq> None) \<and>
         (\<forall>n1 n2 l. declared_funcs m n1 = Some l \<and> declared_funcs m n2 = Some l \<longrightarrow> n1 = n2) \<and>
         bytes = assemble (asm_module kRuntimeFns m) \<and>
         (\<forall>decl. T_Func decl \<in> set m \<longrightarrow>
            (\<exists>l. declared_funcs m (func_name decl) = Some l \<and>
                 A_label l \<in> set (asm_module kRuntimeFns m))) \<and>
         (\<forall>l. A_ref l \<in> set (asm_module kRuntimeFns m) \<longrightarrow>
              A_label l \<in> set (asm_module kRuntimeFns m))"
proof -
  from assms obtain protos cg0 global cg1 cg2 where
    d: "Declare kRuntimeFns m Map.empty init_Codegen = Inr (protos, cg0)"
    and t: "LowerTopLevel (GlobalScope (funcs cg0) protos) m cg0 = Inr (global, cg1)"
    and f: "LowerFuncs global m (Emit_Opcode STOP cg1) = Inr cg2"
    and b: "bytes = code cg2" and e: "emitted (asm_module kRuntimeFns m) cg2"
    by (rule Translate_emitted)
  let ?fs = "declared_funcs m"
  let ?tr = "asm_module kRuntimeFns m"
  note di = Declare_init [OF d]
  note df = Declare_facts [OF d]
  have "cg0 = init_Codegen\<lparr>nextLabel := length (func_decls m), funcs := ?fs\<rparr>"
    using di df by (cases cg0) (simp add: init_Codegen_def)
  then have 1: "Declare kRuntimeFns m Map.empty init_Codegen =
      Inr (declared_protos kRuntimeFns m,
           init_Codegen\<lparr>nextLabel := length (func_decls m), funcs := ?fs\<rparr>)"
    using d di(1) by simp
  have fr: "labels_fresh cg0" using Declare_fresh [OF d] init_facts(5) by simp
  have 3: "\<forall>n1 n2 l. ?fs n1 = Some l \<and> ?fs n2 = Some l \<longrightarrow> n1 = n2"
    using fr unfolding labels_fresh_def di(2) by blast
  have dom_fs: "dom ?fs = {func_name decl |decl. T_Func decl \<in> set m}"
    using df di(2) by (simp add: init_facts)
  have s0: "sites_of cg0 l = []" for l
    using df init_facts(1) [of l] by (simp add: sites_of_def)
  have p0: "pending cg0 = {}" by (simp add: pending_def s0)
  have tp: "pending cg1 \<subseteq> ran ?fs" and rg: "root global = GlobalScope ?fs protos"
    using LowerTopLevel_pending [OF t, of ?fs protos] p0 di(2) by auto
  have f1: "funcs cg1 = ?fs"
    using LowerTopLevel_inv [where P = "\<lambda>c. funcs c = ?fs", OF _ _ _ _ _ t] di(2)
    by (simp add: frame_EmitLabel)
  have fS: "funcs (Emit_Opcode STOP cg1) = ?fs" using f1 by (simp add: Emit_Opcode_def)
  note fp = LowerFuncs_pending [OF f rg]
  have bound: "\<exists>l. ?fs (func_name decl) = Some l \<and> labelToAddress cg2 l \<noteq> None"
    if "T_Func decl \<in> set m" for decl
    using fp that fS by auto
  have "pending cg2 \<subseteq> ran ?fs" using fp tp by (auto simp: Emit_Opcode_def)
  moreover have "labelToAddress cg2 l \<noteq> None" if "l \<in> ran ?fs" for l
  proof -
    from that obtain n where n: "?fs n = Some l" by (auto simp: ran_def)
    then have "n \<in> dom ?fs" by blast
    then obtain decl where "T_Func decl \<in> set m" "n = func_name decl" using dom_fs by auto
    with bound [of decl] n show ?thesis by auto
  qed
  ultimately have pe: "pending cg2 = {}" by (auto simp: pending_def)
  have 5: "\<forall>decl. T_Func decl \<in> set m \<longrightarrow>
      (\<exists>l. ?fs (func_name decl) = Some l \<and> A_label l \<in> set ?tr)"
    using bound emitted_bound [OF e] by blast
  have 6: "A_label l \<in> set ?tr" if r: "A_ref l \<in> set ?tr" for l
  proof (rule ccontr)
    assume n: "A_label l \<notin> set ?tr"
    then have "fsites l 0 ?tr \<noteq> []" using fsites_ref [OF r] by (simp add: labels_of_def)
    then have "sites_of cg2 l \<noteq> []" using e by (simp add: emitted_def)
    moreover have "labelToAddress cg2 l = None" using n emitted_bound [OF e, of l] by simp
    ultimately show False using pe by (auto simp: pending_def)
  qed
  have 4: "bytes = assemble ?tr" using b e by (simp add: emitted_def)
  show ?thesis using 1 di(8) 3 4 5 6 by blast
qed


lemma Translate_example:
  "Translate example_fns example_module init_Codegen = Inr example_program"
  by (simp add: Translate_def example_module_def example_program_def example_fns_def
      init_Codegen_def MakeLabel_def LowerFuncDecl_def EmitLabel_def sites_of_def
      LowerExprStmt_def LowerReturnStmt_def LowerRefExpr_def LowerIntExpr_def EmitPushFunc_def
      EmitPushProto_def EmitFixup_def EmitCall_def EmitPop_def emit_drop1_def EmitReturn_def
      EmitInt_def EmitPeek_def EmitAdd_def EmitJump_def EmitJumpFalse_def Emit_Opcode_def
      Emit_u64_def Emit_u32_def Emit_bytes_def memcpy_at_def arg_count_def bytes_u64_def
      bytes_u32_def le_bytes_8 le_bytes_4 Let_def)

text \<open>
  The items of the example, with the labels \<open>1\<close> and \<open>2\<close> of \<open>f\<close> and \<open>g\<close> and the labels
  \<open>3\<close> and \<open>4\<close> of the loop, and the bindings of its pre-pass.
\<close>

lemma asm_module_example:
  "asm_module example_fns example_module =
     [ins PUSH_FUNC, A_ref 2, ins CALL, ins PUSH_PROTO, A_bytes (bytes_u64 7), ins CALL, ins POP,
      A_label 3, ins PUSH_INT, A_bytes (bytes_u64 0), ins JUMP_FALSE, A_ref 4,
      ins PUSH_INT, A_bytes (bytes_u64 1), ins PUSH_FUNC, A_ref 1, ins CALL, ins POP,
      ins JUMP, A_ref 3, A_label 4,
      ins STOP,
      A_label 1, ins PEEK, A_bytes (bytes_u32 1), ins PUSH_INT, A_bytes (bytes_u64 1), ins ADD,
      ins RET, A_bytes (bytes_u32 0), A_bytes (bytes_u32 1),
      A_label 2, ins PUSH_INT, A_bytes (bytes_u64 2), ins PUSH_FUNC, A_ref 1, ins CALL,
      ins RET, A_bytes (bytes_u32 0), A_bytes (bytes_u32 0)]"
  "declared_protos example_fns example_module ''print'' = Some 7"
  "declared_funcs example_module ''f'' = Some 1"
  "declared_funcs example_module ''g'' = Some 2"
  "length (func_decls example_module) = 2"
  by (simp_all add: asm_module_def example_module_def example_fns_def top_stmts_def
      func_decls_def proto_decls_def declared_funcs_def declared_protos_def Let_def upt_rec)

theorem Translate_layout_witness:
  "Translate example_fns example_module init_Codegen = Inr example_program \<and>
   Declare example_fns example_module Map.empty init_Codegen =
     Inr (declared_protos example_fns example_module,
          init_Codegen\<lparr>nextLabel := 2, funcs := declared_funcs example_module\<rparr>) \<and>
   declared_protos example_fns example_module ''print'' = example_fns ''print_int'' \<and>
   example_fns ''print_int'' = Some 7 \<and>
   declared_funcs example_module ''f'' = Some 1 \<and>
   declared_funcs example_module ''g'' = Some 2 \<and>
   example_program = assemble (asm_module example_fns example_module) \<and>
   A_label 1 \<in> set (asm_module example_fns example_module) \<and>
   A_label 2 \<in> set (asm_module example_fns example_module) \<and>
   A_ref 2 \<in> set (asm_module example_fns example_module)"
proof -
  note T = Translate_layout [OF Translate_example]
  have 1: "Declare example_fns example_module Map.empty init_Codegen =
     Inr (declared_protos example_fns example_module,
          init_Codegen\<lparr>nextLabel := 2, funcs := declared_funcs example_module\<rparr>)"
    using T asm_module_example(5) by simp
  have 2: "example_program = assemble (asm_module example_fns example_module)"
    using T by blast
  have f: "T_Func (FuncDecl ''f'' [(''a'', ''int'')] ''int''
        [ReturnStmt (BinaryExpr K_ADD (RefExpr ''a'') (IntExpr 1))]) \<in> set example_module"
    and g: "T_Func (FuncDecl ''g'' [] ''int'' [ReturnStmt (CallExpr (RefExpr ''f'') [IntExpr 2])])
        \<in> set example_module"
    by (simp_all add: example_module_def)
  have 3: "A_label 1 \<in> set (asm_module example_fns example_module)"
    using T f asm_module_example(3) by fastforce
  have 4: "A_label 2 \<in> set (asm_module example_fns example_module)"
    using T g asm_module_example(4) by fastforce
  have 5: "A_ref 2 \<in> set (asm_module example_fns example_module)"
    by (simp add: asm_module_example(1))
  show ?thesis
    using Translate_example 1 2 3 4 5 asm_module_example(2,3,4) by (simp add: example_fns_def)
qed

section \<open>Properties of the parser\<close>

subsection \<open>More fuel never changes a result\<close>

lemma bind_fuel_mono:
  assumes "bind_fuel x f = Some r"
    and "\<And>v. x = Some v \<Longrightarrow> x' = Some v"
    and "\<And>v. x = Some (Inr v) \<Longrightarrow> f v = Some r \<Longrightarrow> f' v = Some r"
  shows "bind_fuel x' f' = Some r"
  using assms by (auto simp: bind_fuel_def split: option.splits sum.splits)

lemma ParseArgs_mono:
  "extends pe pe' \<Longrightarrow> n \<le> m \<Longrightarrow> ParseArgs pe n args ts = Some r \<Longrightarrow>
   ParseArgs pe' m args ts = Some r"
proof (induction n arbitrary: m args ts)
  case 0
  then show ?case by simp
next
  case (Suc n)
  then obtain m' where m: "m = Suc m'" "n \<le> m'" by (cases m) auto
  show ?case
  proof (cases "Current (Next ts) = TK_RPAREN")
    case True
    with Suc.prems m show ?thesis by (simp add: Let_def)
  next
    case False
    with Suc.prems(3) have b: "bind_fuel (pe (Next ts)) (\<lambda>(e, ts).
          if Current ts \<noteq> TK_COMMA then Some (Inr (args @ [e], ts))
          else ParseArgs pe n (args @ [e]) ts) = Some r"
      by (simp add: Let_def)
    have "bind_fuel (pe' (Next ts)) (\<lambda>(e, ts).
          if Current ts \<noteq> TK_COMMA then Some (Inr (args @ [e], ts))
          else ParseArgs pe' m' (args @ [e]) ts) = Some r"
      using b
    proof (rule bind_fuel_mono)
      fix v assume "pe (Next ts) = Some v"
      then show "pe' (Next ts) = Some v" using Suc.prems(1) by (simp add: extends_def)
    next
      fix v
      assume "(case v of (e, ts) \<Rightarrow>
          if Current ts \<noteq> TK_COMMA then Some (Inr (args @ [e], ts))
          else ParseArgs pe n (args @ [e]) ts) = Some r"
      then show "(case v of (e, ts) \<Rightarrow>
          if Current ts \<noteq> TK_COMMA then Some (Inr (args @ [e], ts))
          else ParseArgs pe' m' (args @ [e]) ts) = Some r"
        using Suc.IH [OF Suc.prems(1) m(2)] by (auto split: prod.splits if_splits)
    qed
    with False m show ?thesis by (simp add: Let_def)
  qed
qed

lemma CallLoop_mono:
  "extends pe pe' \<Longrightarrow> n \<le> m \<Longrightarrow> CallLoop pe n callee ts = Some r \<Longrightarrow>
   CallLoop pe' m callee ts = Some r"
proof (induction n arbitrary: m callee ts)
  case 0
  then show ?case by simp
next
  case (Suc n)
  then obtain m' where m: "m = Suc m'" "n \<le> m'" by (cases m) auto
  show ?case
  proof (cases "Current ts = TK_LPAREN")
    case False
    with Suc.prems m show ?thesis by simp
  next
    case True
    let ?k = "\<lambda>p j. (\<lambda>(args, ts).
        bind_fuel (Some (Check TK_RPAREN ts)) (\<lambda>tk.
          let ts = Next ts in CallLoop p j (CallExpr callee args) ts))"
    from True Suc.prems(3) have b: "bind_fuel (ParseArgs pe n [] ts) (?k pe n) = Some r"
      by simp
    have "bind_fuel (ParseArgs pe' m' [] ts) (?k pe' m') = Some r"
      using b
    proof (rule bind_fuel_mono)
      fix v assume "ParseArgs pe n [] ts = Some v"
      then show "ParseArgs pe' m' [] ts = Some v"
        using ParseArgs_mono [OF Suc.prems(1) m(2)] by simp
    next
      fix v assume "?k pe n v = Some r"
      then show "?k pe' m' v = Some r"
        using Suc.IH [OF Suc.prems(1) m(2)]
        by (auto simp: bind_fuel_def Let_def split: prod.splits sum.splits)
    qed
    with True m show ?thesis by simp
  qed
qed

lemma ParseCallExpr_mono:
  "extends pe pe' \<Longrightarrow> n \<le> m \<Longrightarrow> ParseCallExpr pe n ts = Some r \<Longrightarrow>
   ParseCallExpr pe' m ts = Some r"
  unfolding ParseCallExpr_def
  by (erule bind_fuel_mono) (auto dest: CallLoop_mono split: prod.splits)

lemma MulDivModLoop_mono:
  "extends pe pe' \<Longrightarrow> n \<le> m \<Longrightarrow> MulDivModLoop pe n term ts = Some r \<Longrightarrow>
   MulDivModLoop pe' m term ts = Some r"
proof (induction n arbitrary: m "term" ts)
  case 0
  then show ?case by simp
next
  case (Suc n)
  then obtain m' where m: "m = Suc m'" "n \<le> m'" by (cases m) auto
  have step: "bind_fuel (ParseCallExpr pe' m' (Next ts)) (\<lambda>(rhs, ts).
        MulDivModLoop pe' m' (BinaryExpr k term rhs) ts) = Some r"
    if "bind_fuel (ParseCallExpr pe n (Next ts)) (\<lambda>(rhs, ts).
        MulDivModLoop pe n (BinaryExpr k term rhs) ts) = Some r" for k
    using that
  proof (rule bind_fuel_mono)
    fix v assume "ParseCallExpr pe n (Next ts) = Some v"
    then show "ParseCallExpr pe' m' (Next ts) = Some v"
      using ParseCallExpr_mono [OF Suc.prems(1) m(2)] by simp
  next
    fix v assume "(case v of (rhs, ts) \<Rightarrow> MulDivModLoop pe n (BinaryExpr k term rhs) ts) = Some r"
    then show "(case v of (rhs, ts) \<Rightarrow> MulDivModLoop pe' m' (BinaryExpr k term rhs) ts) = Some r"
      using Suc.IH [OF Suc.prems(1) m(2)] by (auto split: prod.splits)
  qed
  show ?case
    using Suc.prems(3) step unfolding m(1)
    by (auto simp: Let_def split: if_splits)
qed

lemma ParseMulDivModExpr_mono:
  "extends pe pe' \<Longrightarrow> n \<le> m \<Longrightarrow> ParseMulDivModExpr pe n ts = Some r \<Longrightarrow>
   ParseMulDivModExpr pe' m ts = Some r"
  unfolding ParseMulDivModExpr_def
  by (erule bind_fuel_mono) (auto dest: ParseCallExpr_mono MulDivModLoop_mono split: prod.splits)

lemma AddSubLoop_mono:
  "extends pe pe' \<Longrightarrow> n \<le> m \<Longrightarrow> AddSubLoop pe n term ts = Some r \<Longrightarrow>
   AddSubLoop pe' m term ts = Some r"
proof (induction n arbitrary: m "term" ts)
  case 0
  then show ?case by simp
next
  case (Suc n)
  then obtain m' where m: "m = Suc m'" "n \<le> m'" by (cases m) auto
  have step: "bind_fuel (ParseMulDivModExpr pe' m' (Next ts)) (\<lambda>(rhs, ts).
        AddSubLoop pe' m' (BinaryExpr k term rhs) ts) = Some r"
    if "bind_fuel (ParseMulDivModExpr pe n (Next ts)) (\<lambda>(rhs, ts).
        AddSubLoop pe n (BinaryExpr k term rhs) ts) = Some r" for k
    using that
  proof (rule bind_fuel_mono)
    fix v assume "ParseMulDivModExpr pe n (Next ts) = Some v"
    then show "ParseMulDivModExpr pe' m' (Next ts) = Some v"
      using ParseMulDivModExpr_mono [OF Suc.prems(1) m(2)] by simp
  next
    fix v assume "(case v of (rhs, ts) \<Rightarrow> AddSubLoop pe n (BinaryExpr k term rhs) ts) = Some r"
    then show "(case v of (rhs, ts) \<Rightarrow> AddSubLoop pe' m' (BinaryExpr k term rhs) ts) = Some r"
      using Suc.IH [OF Suc.prems(1) m(2)] by (auto split: prod.splits)
  qed
  show ?case
    using Suc.prems(3) step unfolding m(1)
    by (auto simp: Let_def split: if_splits)
qed

lemma ParseAddSubExpr_mono:
  "extends pe pe' \<Longrightarrow> n \<le> m \<Longrightarrow> ParseAddSubExpr pe n ts = Some r \<Longrightarrow>
   ParseAddSubExpr pe' m ts = Some r"
  unfolding ParseAddSubExpr_def
  by (erule bind_fuel_mono) (auto dest: ParseMulDivModExpr_mono AddSubLoop_mono split: prod.splits)

lemma CompLoop_mono:
  "extends pe pe' \<Longrightarrow> n \<le> m \<Longrightarrow> CompLoop pe n term ts = Some r \<Longrightarrow>
   CompLoop pe' m term ts = Some r"
proof (induction n arbitrary: m "term" ts)
  case 0
  then show ?case by simp
next
  case (Suc n)
  then obtain m' where m: "m = Suc m'" "n \<le> m'" by (cases m) auto
  show ?case
  proof (cases "is_comp (Current ts)")
    case False
    with Suc.prems m show ?thesis by simp
  next
    case True
    let ?t = "\<lambda>rhs ts. (if Current ts = TK_GREATER then BinaryExpr K_GREATER term rhs
              else if Current ts = TK_LOWER then BinaryExpr K_LOWER term rhs
              else if Current ts = TK_GREATER_EQ then BinaryExpr K_GREATER_EQ term rhs
              else if Current ts = TK_LOWER_EQ then BinaryExpr K_LOWER_EQ term rhs
              else BinaryExpr K_IS_EQ term rhs)"
    from True Suc.prems(3) have b: "bind_fuel (ParseAddSubExpr pe n (Next ts)) (\<lambda>(rhs, ts).
        CompLoop pe n (?t rhs ts) ts) = Some r"
      by (simp add: Let_def)
    have "bind_fuel (ParseAddSubExpr pe' m' (Next ts)) (\<lambda>(rhs, ts).
        CompLoop pe' m' (?t rhs ts) ts) = Some r"
      using b
    proof (rule bind_fuel_mono)
      fix v assume "ParseAddSubExpr pe n (Next ts) = Some v"
      then show "ParseAddSubExpr pe' m' (Next ts) = Some v"
        using ParseAddSubExpr_mono [OF Suc.prems(1) m(2)] by simp
    next
      fix v assume "(case v of (rhs, ts) \<Rightarrow> CompLoop pe n (?t rhs ts) ts) = Some r"
      then show "(case v of (rhs, ts) \<Rightarrow> CompLoop pe' m' (?t rhs ts) ts) = Some r"
        using Suc.IH [OF Suc.prems(1) m(2)] by (auto split: prod.splits)
    qed
    with True m show ?thesis by (simp add: Let_def)
  qed
qed

lemma ParseCompExpr_mono:
  "extends pe pe' \<Longrightarrow> n \<le> m \<Longrightarrow> ParseCompExpr pe n ts = Some r \<Longrightarrow>
   ParseCompExpr pe' m ts = Some r"
  unfolding ParseCompExpr_def
  by (erule bind_fuel_mono) (auto dest: ParseAddSubExpr_mono CompLoop_mono split: prod.splits)

lemma ParseExpr_Suc_extends: "extends (ParseExpr n) (ParseExpr (Suc n))"
proof (induction n)
  case 0
  then show ?case by (simp add: extends_def)
next
  case (Suc n)
  show ?case
    unfolding extends_def
  proof (intro allI impI)
    fix ts r assume "ParseExpr (Suc n) ts = Some r"
    then have "ParseCompExpr (ParseExpr n) n ts = Some r" by simp
    then have "ParseCompExpr (ParseExpr (Suc n)) (Suc n) ts = Some r"
      using Suc.IH by (rule ParseCompExpr_mono [rotated 2]) simp
    then show "ParseExpr (Suc (Suc n)) ts = Some r" by simp
  qed
qed

lemma ParseExpr_extends: "n \<le> m \<Longrightarrow> extends (ParseExpr n) (ParseExpr m)"
proof (induction m)
  case 0
  then show ?case by (simp add: extends_def)
next
  case (Suc m)
  show ?case
  proof (cases "n = Suc m")
    case True
    then show ?thesis by (simp add: extends_def)
  next
    case False
    with Suc have "extends (ParseExpr n) (ParseExpr m)" by simp
    with ParseExpr_Suc_extends [of m] show ?thesis by (simp add: extends_def)
  qed
qed

text \<open>
  Claim C9. Let the left operand \<open>a\<close> be parsed from the input up to a comparison token
  \<open>tk\<close>, and the right operand \<open>b\<close> from the rest up to a token that is no comparison.
  Then, whichever comparison \<open>tk\<close> is, \<open>ParseCompExpr\<close> returns the node
  \<open>BinaryExpr K_IS_EQ a b\<close>, for every count that exceeds the one the operands were
  parsed with by two.
\<close>

theorem ParseCompExpr_kind_from_token_after_rhs:
  assumes "ParseAddSubExpr (ParseExpr n) n ts = Some (Inr (a, tk # ts1))"
    and "is_comp tk"
    and "ParseAddSubExpr (ParseExpr n) n ts1 = Some (Inr (b, ts2))"
    and "\<not> is_comp (Current ts2)"
  shows "\<forall>m \<ge> n + 2. ParseCompExpr (ParseExpr m) m ts = Some (Inr (BinaryExpr K_IS_EQ a b, ts2))"
proof (intro allI impI)
  fix m assume "n + 2 \<le> m"
  then obtain j where m: "m = Suc (Suc j)" "n \<le> j" by (cases m; cases "m - 1") auto
  have e: "extends (ParseExpr n) (ParseExpr m)" using m by (intro ParseExpr_extends) simp
  have l: "ParseAddSubExpr (ParseExpr m) m ts = Some (Inr (a, tk # ts1))"
    using ParseAddSubExpr_mono [OF e _ assms(1)] m by simp
  have r: "ParseAddSubExpr (ParseExpr m) (Suc j) ts1 = Some (Inr (b, ts2))"
    using ParseAddSubExpr_mono [OF e _ assms(3)] m by simp
  have k: "\<not> Current ts2 = TK_GREATER" "\<not> Current ts2 = TK_LOWER"
    "\<not> Current ts2 = TK_GREATER_EQ" "\<not> Current ts2 = TK_LOWER_EQ"
    using assms(4) by (auto simp: is_comp_def)
  have "CompLoop (ParseExpr m) m a (tk # ts1) = Some (Inr (BinaryExpr K_IS_EQ a b, ts2))"
    unfolding m(1) using assms(2,4) r k
    by (simp add: Current_def Next_def bind_fuel_def Let_def m(1))
  then show "ParseCompExpr (ParseExpr m) m ts = Some (Inr (BinaryExpr K_IS_EQ a b, ts2))"
    using l by (simp add: ParseCompExpr_def bind_fuel_def)
qed

theorem ParseCompExpr_kind_from_token_after_rhs_witness:
  "ParseCompExpr (ParseExpr 3) 3 [TK_INT 1, TK_GREATER, TK_INT 2]
     = Some (Inr (BinaryExpr K_IS_EQ (IntExpr 1) (IntExpr 2), [])) \<and>
   ParseCompExpr (ParseExpr 3) 3 [TK_INT 1, TK_LOWER, TK_INT 2, TK_SEMI]
     = Some (Inr (BinaryExpr K_IS_EQ (IntExpr 1) (IntExpr 2), [TK_SEMI]))"
proof -
  note defs = ParseAddSubExpr_def ParseMulDivModExpr_def ParseCallExpr_def ParseTermExpr_def
    Current_def Next_def bind_fuel_def is_comp_def
  have a1: "ParseAddSubExpr (ParseExpr 1) 1 [TK_INT 1, TK_GREATER, TK_INT 2]
      = Some (Inr (IntExpr 1, TK_GREATER # [TK_INT 2]))"
    by (simp add: defs)
  have a2: "ParseAddSubExpr (ParseExpr 1) 1 [TK_INT 2] = Some (Inr (IntExpr 2, []))"
    by (simp add: defs)
  have b1: "ParseAddSubExpr (ParseExpr 1) 1 [TK_INT 1, TK_LOWER, TK_INT 2, TK_SEMI]
      = Some (Inr (IntExpr 1, TK_LOWER # [TK_INT 2, TK_SEMI]))"
    by (simp add: defs)
  have b2: "ParseAddSubExpr (ParseExpr 1) 1 [TK_INT 2, TK_SEMI] = Some (Inr (IntExpr 2, [TK_SEMI]))"
    by (simp add: defs)
  have c: "is_comp TK_GREATER" "is_comp TK_LOWER" "\<not> is_comp (Current [])"
    "\<not> is_comp (Current [TK_SEMI])"
    by (simp_all add: is_comp_def Current_def)
  have "(1 :: nat) + 2 \<le> 3" by simp
  with ParseCompExpr_kind_from_token_after_rhs [OF a1 c(1) a2 c(3)]
    ParseCompExpr_kind_from_token_after_rhs [OF b1 c(2) b2 c(4)]
  show ?thesis by blast
qed

end
